theory Spec2Isabelle
  imports Main "HOL-Library.Word"
begin

unbundle bit_operations_syntax

section \<open>Data model of the allocator\<close>

text \<open>
  The allocator is written for an LP64 platform: \<open>size_t\<close> and pointers are 64-bit
  values. Both are modelled as 64-bit words, so every addition and subtraction of the
  source wraps modulo \<open>2 ^ 64\<close> exactly as the unsigned arithmetic of the code does.
  The null pointer is the word \<open>0\<close>.
\<close>

type_synonym size_t = "64 word"
type_synonym ptr = "64 word"

text \<open>\<open>struct MemoryBlock\<close> of \<open>memory_allocator.hpp\<close>.\<close>

record MemoryBlock =
  size_blk :: size_t
  is_free :: bool
  next_blk :: ptr
  prev_blk :: ptr

text \<open>
  \<open>sizeof(MemoryBlock)\<close> on LP64: an 8-byte size, a bool padded to 8 bytes and two
  8-byte pointers.
\<close>

definition sizeof_MemoryBlock :: size_t where
  "sizeof_MemoryBlock = 32"

definition MIN_BLOCK_SIZE :: size_t where
  "MIN_BLOCK_SIZE = 16"

definition ALIGNMENT :: size_t where
  "ALIGNMENT = 8"

definition getData :: "ptr \<Rightarrow> ptr" where
  "getData this = this + sizeof_MemoryBlock"

definition fromData :: "ptr \<Rightarrow> ptr" where
  "fromData data = data - sizeof_MemoryBlock"

text \<open>\<open>struct MemoryStats\<close>.\<close>

record MemoryStats =
  total_heap_size :: size_t
  used_memory :: size_t
  free_memory :: size_t
  total_allocations :: size_t
  total_frees :: size_t
  block_count :: size_t
  free_block_count :: size_t
  coalesce_count :: size_t
  split_count :: size_t

text \<open>
  \<open>class MemoryAllocator\<close>: the six data members of the class, and the contents of the
  memory the allocator reads and writes. The memory is kept as two views:
  \<open>bytes\<close> gives the byte read at an address, \<open>blocks\<close> the \<open>MemoryBlock\<close> header
  read through a header pointer at an address. A write to a header field changes both
  views (section \<open>Writes to header fields\<close>). \<open>memset\<close> and \<open>memcpy\<close> write bytes
  only. A \<open>memset\<close> that would write bytes past the end of the block it was given is
  undefined behaviour in C++: \<open>my_calloc\<close> reports it as a fault. The \<open>memcpy\<close> of
  \<open>my_realloc\<close> stays inside the block it writes to. So no write of bytes that the
  model describes reaches a header of the chain, and on a well-formed engine the
  header view is what the bytes hold at every block of the chain (section
  \<open>The header view and the bytes of memory\<close>).
\<close>

record MemoryAllocator =
  heap_start :: ptr
  heap_end :: ptr
  heap_size :: size_t
  free_list :: ptr
  stats :: MemoryStats
  owns_memory :: bool
  blocks :: "ptr \<Rightarrow> MemoryBlock"
  bytes :: "ptr \<Rightarrow> 8 word"

text \<open>The lines the allocator writes to \<open>std::cerr\<close>.\<close>

datatype diag =
  MallocOutOfMemory size_t
  | FreeInvalidPointer
  | FreeDoubleFree
  | ReallocInvalidPointer
  | CallocSizeOverflow

text \<open>The exceptions the constructors throw.\<close>

datatype exn = bad_alloc | invalid_argument

text \<open>
  Undefined behaviour the model stops at: a \<open>memset\<close> that runs past the end of the
  block whose payload it was given.
\<close>

datatype fault = BufferOverrun

section \<open>Writes to header fields\<close>

definition set_size :: "(ptr \<Rightarrow> MemoryBlock) \<Rightarrow> ptr \<Rightarrow> size_t \<Rightarrow> (ptr \<Rightarrow> MemoryBlock)" where
  "set_size h b v = h(b := (h b)\<lparr>size_blk := v\<rparr>)"

definition set_is_free :: "(ptr \<Rightarrow> MemoryBlock) \<Rightarrow> ptr \<Rightarrow> bool \<Rightarrow> (ptr \<Rightarrow> MemoryBlock)" where
  "set_is_free h b v = h(b := (h b)\<lparr>is_free := v\<rparr>)"

definition set_next :: "(ptr \<Rightarrow> MemoryBlock) \<Rightarrow> ptr \<Rightarrow> ptr \<Rightarrow> (ptr \<Rightarrow> MemoryBlock)" where
  "set_next h b v = h(b := (h b)\<lparr>next_blk := v\<rparr>)"

definition set_prev :: "(ptr \<Rightarrow> MemoryBlock) \<Rightarrow> ptr \<Rightarrow> ptr \<Rightarrow> (ptr \<Rightarrow> MemoryBlock)" where
  "set_prev h b v = h(b := (h b)\<lparr>prev_blk := v\<rparr>)"

text \<open>
  The bytes of a header on LP64, little-endian: \<open>size\<close> in the 8 bytes at offset 0,
  \<open>is_free\<close> in the byte at offset 8 (followed by 7 bytes of padding that no
  assignment writes), \<open>next\<close> at offset 16 and \<open>prev\<close> at offset 24. \<open>store64\<close>
  writes the 8 bytes of a 64-bit value from address \<open>a\<close> on.
\<close>

definition store64 :: "(ptr \<Rightarrow> 8 word) \<Rightarrow> ptr \<Rightarrow> 64 word \<Rightarrow> (ptr \<Rightarrow> 8 word)" where
  "store64 m a v = (\<lambda>x. if x - a < 8 then ucast (drop_bit (8 * unat (x - a)) v) else m x)"

text \<open>
  The assignments \<open>block->size = v\<close>, \<open>block->is_free = v\<close>, \<open>block->next = v\<close> and
  \<open>block->prev = v\<close>: the header read at \<open>b\<close> changes in that field, and the bytes
  of the field change in memory.
\<close>

definition write_size :: "MemoryAllocator \<Rightarrow> ptr \<Rightarrow> size_t \<Rightarrow> MemoryAllocator" where
  "write_size s b v = s\<lparr>blocks := set_size (blocks s) b v, bytes := store64 (bytes s) b v\<rparr>"

definition write_is_free :: "MemoryAllocator \<Rightarrow> ptr \<Rightarrow> bool \<Rightarrow> MemoryAllocator" where
  "write_is_free s b v =
     s\<lparr>blocks := set_is_free (blocks s) b v,
       bytes := (bytes s)(b + 8 := (if v then 1 else 0))\<rparr>"

definition write_next :: "MemoryAllocator \<Rightarrow> ptr \<Rightarrow> ptr \<Rightarrow> MemoryAllocator" where
  "write_next s b v =
     s\<lparr>blocks := set_next (blocks s) b v, bytes := store64 (bytes s) (b + 16) v\<rparr>"

definition write_prev :: "MemoryAllocator \<Rightarrow> ptr \<Rightarrow> ptr \<Rightarrow> MemoryAllocator" where
  "write_prev s b v =
     s\<lparr>blocks := set_prev (blocks s) b v, bytes := store64 (bytes s) (b + 24) v\<rparr>"

section \<open>Utility functions\<close>

definition alignSize :: "size_t \<Rightarrow> size_t" where
  "alignSize sz = (sz + ALIGNMENT - 1) AND NOT (ALIGNMENT - 1)"

definition isValidPointer :: "MemoryAllocator \<Rightarrow> ptr \<Rightarrow> bool" where
  "isValidPointer s p \<longleftrightarrow> heap_start s + sizeof_MemoryBlock \<le> p \<and> p < heap_end s"

text \<open>
  \<open>std::memset\<close> and \<open>std::memcpy\<close> on the bytes of memory: the \<open>n\<close> addresses from
  \<open>dst\<close> on are those whose distance from \<open>dst\<close> is below \<open>n\<close>.
\<close>

definition memset :: "(ptr \<Rightarrow> 8 word) \<Rightarrow> ptr \<Rightarrow> 8 word \<Rightarrow> size_t \<Rightarrow> (ptr \<Rightarrow> 8 word)" where
  "memset m dst v n = (\<lambda>a. if a - dst < n then v else m a)"

definition memcpy :: "(ptr \<Rightarrow> 8 word) \<Rightarrow> ptr \<Rightarrow> ptr \<Rightarrow> size_t \<Rightarrow> (ptr \<Rightarrow> 8 word)" where
  "memcpy m dst src n = (\<lambda>a. if a - dst < n then m (src + (a - dst)) else m a)"

section \<open>Initialisation, construction and moves\<close>

definition initializeHeap :: "MemoryAllocator \<Rightarrow> MemoryAllocator" where
  "initializeHeap s =
     (let fl = heap_start s;
          s1 = write_size (s\<lparr>free_list := fl\<rparr>) fl (heap_size s - sizeof_MemoryBlock);
          s2 = write_is_free s1 fl True;
          s3 = write_next s2 fl 0;
          s4 = write_prev s3 fl 0
      in s4\<lparr>stats := \<lparr>total_heap_size = heap_size s,
                      used_memory = 0,
                      free_memory = size_blk (blocks s4 fl),
                      total_allocations = 0,
                      total_frees = 0,
                      block_count = 1,
                      free_block_count = 1,
                      coalesce_count = 0,
                      split_count = 0\<rparr>\<rparr>)"

definition reset :: "MemoryAllocator \<Rightarrow> MemoryAllocator" where
  "reset s = initializeHeap s"

definition zero_stats :: MemoryStats where
  "zero_stats = \<lparr>total_heap_size = 0, used_memory = 0, free_memory = 0,
     total_allocations = 0, total_frees = 0, block_count = 0, free_block_count = 0,
     coalesce_count = 0, split_count = 0\<rparr>"

text \<open>
  \<open>MemoryAllocator(size_t heap_size)\<close>: \<open>host\<close> is what \<open>std::malloc(heap_size)\<close>
  returned, \<open>h\<close> and \<open>m\<close> the contents of memory at that moment.
\<close>

definition construct_sized ::
  "(ptr \<Rightarrow> MemoryBlock) \<Rightarrow> (ptr \<Rightarrow> 8 word) \<Rightarrow> ptr \<Rightarrow> size_t \<Rightarrow> exn + MemoryAllocator" where
  "construct_sized h m host hsize =
     (if host = 0 then Inl bad_alloc
      else Inr (initializeHeap
        \<lparr>heap_start = host, heap_end = host + hsize, heap_size = hsize, free_list = 0,
         stats = zero_stats, owns_memory = True, blocks = h, bytes = m\<rparr>))"

text \<open>\<open>MemoryAllocator(void *memory, size_t size)\<close>.\<close>

definition construct_adopted ::
  "(ptr \<Rightarrow> MemoryBlock) \<Rightarrow> (ptr \<Rightarrow> 8 word) \<Rightarrow> ptr \<Rightarrow> size_t \<Rightarrow> exn + MemoryAllocator" where
  "construct_adopted h m memory sz =
     (if memory = 0 \<or> sz < sizeof_MemoryBlock + MIN_BLOCK_SIZE then Inl invalid_argument
      else Inr (initializeHeap
        \<lparr>heap_start = memory, heap_end = memory + sz, heap_size = sz, free_list = 0,
         stats = zero_stats, owns_memory = False, blocks = h, bytes = m\<rparr>))"

text \<open>
  The move constructor returns the new object and the moved-from object. Moving touches
  no memory: both objects see the same contents.
\<close>

definition move_construct :: "MemoryAllocator \<Rightarrow> MemoryAllocator \<times> MemoryAllocator" where
  "move_construct other =
     (\<lparr>heap_start = heap_start other, heap_end = heap_end other,
       heap_size = heap_size other, free_list = free_list other,
       stats = stats other, owns_memory = owns_memory other,
       blocks = blocks other, bytes = bytes other\<rparr>,
      other\<lparr>heap_start := 0, heap_end := 0, free_list := 0, owns_memory := False\<rparr>)"

text \<open>
  Move assignment: \<open>same\<close> says whether \<open>this == &other\<close>. The result is the assigned
  object, the moved-from object, and the regions handed to \<open>std::free\<close>.
\<close>

definition move_assign ::
  "bool \<Rightarrow> MemoryAllocator \<Rightarrow> MemoryAllocator \<Rightarrow> MemoryAllocator \<times> MemoryAllocator \<times> ptr list" where
  "move_assign same this other =
     (if \<not> same then
        (this\<lparr>heap_start := heap_start other, heap_end := heap_end other,
              heap_size := heap_size other, free_list := free_list other,
              stats := stats other, owns_memory := owns_memory other\<rparr>,
         other\<lparr>heap_start := 0, heap_end := 0, free_list := 0, owns_memory := False\<rparr>,
         if owns_memory this \<and> heap_start this \<noteq> 0 then [heap_start this] else [])
      else (this, other, []))"

section \<open>Block management\<close>

text \<open>
  The two loops of the source follow \<open>next\<close> pointers until they meet the null
  pointer. On a chain that runs into a cycle they never return: the value is \<open>None\<close>.
\<close>

partial_function (option) findFreeBlock_loop ::
  "(ptr \<Rightarrow> MemoryBlock) \<Rightarrow> ptr \<Rightarrow> size_t \<Rightarrow> ptr option" where
  "findFreeBlock_loop h current sz =
     (if current = 0 then Some 0
      else if is_free (h current) \<and> sz \<le> size_blk (h current) then Some current
      else findFreeBlock_loop h (next_blk (h current)) sz)"

definition findFreeBlock :: "MemoryAllocator \<Rightarrow> size_t \<Rightarrow> ptr option" where
  "findFreeBlock s sz = findFreeBlock_loop (blocks s) (free_list s) sz"

partial_function (option) recalculate_loop ::
  "(ptr \<Rightarrow> MemoryBlock) \<Rightarrow> ptr \<Rightarrow> size_t \<Rightarrow> size_t \<Rightarrow> (size_t \<times> size_t) option" where
  "recalculate_loop h current total_count free_count =
     (if current = 0 then Some (total_count, free_count)
      else recalculate_loop h (next_blk (h current)) (total_count + 1)
             (if is_free (h current) then free_count + 1 else free_count))"

definition recalculateBlockCounts :: "MemoryAllocator \<Rightarrow> MemoryAllocator option" where
  "recalculateBlockCounts s =
     (case recalculate_loop (blocks s) (free_list s) 0 0 of
        None \<Rightarrow> None
      | Some (total_count, free_count) \<Rightarrow>
          Some (s\<lparr>stats := (stats s)\<lparr>block_count := total_count,
                                     free_block_count := free_count\<rparr>\<rparr>))"

definition updateStatsAfterAlloc :: "MemoryAllocator \<Rightarrow> size_t \<Rightarrow> MemoryAllocator option" where
  "updateStatsAfterAlloc s sz =
     recalculateBlockCounts
       (s\<lparr>stats := (stats s)\<lparr>used_memory := used_memory (stats s) + sz,
                              free_memory := free_memory (stats s) - sz,
                              total_allocations := total_allocations (stats s) + 1,
                              free_block_count := free_block_count (stats s) - 1\<rparr>\<rparr>)"

definition updateStatsAfterFree :: "MemoryAllocator \<Rightarrow> size_t \<Rightarrow> MemoryAllocator" where
  "updateStatsAfterFree s sz =
     s\<lparr>stats := (stats s)\<lparr>used_memory := used_memory (stats s) - sz,
                           free_memory := free_memory (stats s) + sz,
                           total_frees := total_frees (stats s) + 1,
                           free_block_count := free_block_count (stats s) + 1\<rparr>\<rparr>"

definition splitBlock :: "MemoryAllocator \<Rightarrow> ptr \<Rightarrow> size_t \<Rightarrow> bool \<times> MemoryAllocator" where
  "splitBlock s block sz =
     (let remaining = size_blk (blocks s block) - sz;
          min_split_size = sizeof_MemoryBlock + MIN_BLOCK_SIZE
      in if remaining < min_split_size then (False, s)
         else
           let new_block = block + sizeof_MemoryBlock + sz;
               s1 = write_size s new_block (remaining - sizeof_MemoryBlock);
               s2 = write_is_free s1 new_block True;
               s3 = write_next s2 new_block (next_blk (blocks s2 block));
               s4 = write_prev s3 new_block block;
               s5 = (if next_blk (blocks s4 new_block) \<noteq> 0
                     then write_prev s4 (next_blk (blocks s4 new_block)) new_block else s4);
               s6 = write_size s5 block sz;
               s7 = write_next s6 block new_block
           in (True,
               s7\<lparr>stats := (stats s)\<lparr>block_count := block_count (stats s) + 1,
                                      free_block_count := free_block_count (stats s) + 1,
                                      split_count := split_count (stats s) + 1\<rparr>\<rparr>))"

definition coalesce_next :: "MemoryAllocator \<Rightarrow> ptr \<Rightarrow> MemoryAllocator" where
  "coalesce_next s block =
     (let h = blocks s in
      if next_blk (h block) \<noteq> 0 \<and> is_free (h (next_blk (h block))) then
        let nxt = next_blk (h block);
            s1 = write_size s block (size_blk (h block) + (sizeof_MemoryBlock + size_blk (h nxt)));
            s2 = write_next s1 block (next_blk (blocks s1 nxt));
            s3 = (if next_blk (blocks s2 block) \<noteq> 0
                  then write_prev s2 (next_blk (blocks s2 block)) block else s2)
        in s3\<lparr>stats := (stats s)\<lparr>block_count := block_count (stats s) - 1,
                                   free_block_count := free_block_count (stats s) - 1,
                                   coalesce_count := coalesce_count (stats s) + 1\<rparr>\<rparr>
      else s)"

definition coalesce_prev :: "MemoryAllocator \<Rightarrow> ptr \<Rightarrow> ptr \<times> MemoryAllocator" where
  "coalesce_prev s block =
     (let h = blocks s in
      if prev_blk (h block) \<noteq> 0 \<and> is_free (h (prev_blk (h block))) then
        let prv = prev_blk (h block);
            s1 = write_size s prv (size_blk (h prv) + (sizeof_MemoryBlock + size_blk (h block)));
            s2 = write_next s1 prv (next_blk (blocks s1 block));
            s3 = (if next_blk (blocks s2 prv) \<noteq> 0
                  then write_prev s2 (next_blk (blocks s2 prv)) prv else s2)
        in (prv,
            s3\<lparr>stats := (stats s)\<lparr>block_count := block_count (stats s) - 1,
                                    free_block_count := free_block_count (stats s) - 1,
                                    coalesce_count := coalesce_count (stats s) + 1\<rparr>\<rparr>)
      else (block, s))"

text \<open>\<open>coalesceBlock\<close>: the merge with the next block, then the merge with the previous one.\<close>

definition coalesceBlock :: "MemoryAllocator \<Rightarrow> ptr \<Rightarrow> ptr \<times> MemoryAllocator" where
  "coalesceBlock s block = coalesce_prev (coalesce_next s block) block"

section \<open>The public operations\<close>

text \<open>
  Each operation returns what the C++ function returns, the allocator after the call
  and the lines written to \<open>std::cerr\<close>. \<open>my_malloc\<close> and its callers walk the chain,
  so their result is an option: \<open>None\<close> when a walk never ends.
\<close>

definition my_malloc ::
  "MemoryAllocator \<Rightarrow> size_t \<Rightarrow> (ptr \<times> MemoryAllocator \<times> diag list) option" where
  "my_malloc s sz =
     (if sz = 0 then Some (0, s, [])
      else
        let sz1 = alignSize sz;
            sz2 = (if sz1 < MIN_BLOCK_SIZE then MIN_BLOCK_SIZE else sz1)
        in case findFreeBlock s sz2 of
             None \<Rightarrow> None
           | Some block \<Rightarrow>
               if block = 0 then Some (0, s, [MallocOutOfMemory sz2])
               else
                 let s1 = snd (splitBlock s block sz2);
                     s2 = write_is_free s1 block False
                 in (case updateStatsAfterAlloc s2 (size_blk (blocks s2 block)) of
                       None \<Rightarrow> None
                     | Some s3 \<Rightarrow> Some (getData block, s3, [])))"

definition my_free :: "MemoryAllocator \<Rightarrow> ptr \<Rightarrow> MemoryAllocator \<times> diag list" where
  "my_free s p =
     (if p = 0 then (s, [])
      else if \<not> isValidPointer s p then (s, [FreeInvalidPointer])
      else
        let block = fromData p in
        if is_free (blocks s block) then (s, [FreeDoubleFree])
        else
          let s1 = updateStatsAfterFree s (size_blk (blocks s block));
              s2 = write_is_free s1 block True
          in (snd (coalesceBlock s2 block), []))"

definition my_realloc ::
  "MemoryAllocator \<Rightarrow> ptr \<Rightarrow> size_t \<Rightarrow> (ptr \<times> MemoryAllocator \<times> diag list) option" where
  "my_realloc s p new_size =
     (if p = 0 then my_malloc s new_size
      else if new_size = 0 then (let (s', d) = my_free s p in Some (0, s', d))
      else if \<not> isValidPointer s p then Some (0, s, [ReallocInvalidPointer])
      else
        let block = fromData p;
            h = blocks s;
            old_size = size_blk (h block);
            new_size' = alignSize new_size
        in if new_size' \<le> old_size then Some (p, s, [])
           else if next_blk (h block) \<noteq> 0 \<and> is_free (h (next_blk (h block)))
                   \<and> new_size' \<le> old_size + sizeof_MemoryBlock + size_blk (h (next_blk (h block)))
           then
             let nxt = next_blk (h block);
                 s1 = write_size s block (old_size + sizeof_MemoryBlock + size_blk (h nxt));
                 s2 = write_next s1 block (next_blk (blocks s1 nxt));
                 s3 = (if next_blk (blocks s2 block) \<noteq> 0
                       then write_prev s2 (next_blk (blocks s2 block)) block else s2)
             in Some (p,
                      s3\<lparr>stats := (stats s)\<lparr>free_block_count := free_block_count (stats s) - 1,
                                             block_count := block_count (stats s) - 1\<rparr>\<rparr>,
                      [])
           else
             case my_malloc s new_size' of
               None \<Rightarrow> None
             | Some (new_ptr, s1, d1) \<Rightarrow>
                 if new_ptr = 0 then Some (0, s1, d1)
                 else
                   let s2 = s1\<lparr>bytes := memcpy (bytes s1) new_ptr p old_size\<rparr>;
                       (s3, d3) = my_free s2 p
                   in Some (new_ptr, s3, d1 @ d3))"

text \<open>
  \<open>my_calloc\<close> hands \<open>memset\<close> the payload of the block \<open>my_malloc\<close> returned and
  the length \<open>total_size\<close>. When the block is shorter than \<open>total_size\<close> (the size
  computation of \<open>my_malloc\<close> wrapped around), \<open>memset\<close> runs past the block, over
  the headers that follow and out of the region: the result is \<open>Inl BufferOverrun\<close>.
\<close>

definition my_calloc ::
  "MemoryAllocator \<Rightarrow> size_t \<Rightarrow> size_t
     \<Rightarrow> (fault + ptr \<times> MemoryAllocator \<times> diag list) option" where
  "my_calloc s count sz =
     (let total_size = count * sz in
      if count \<noteq> 0 \<and> total_size div count \<noteq> sz then Some (Inr (0, s, [CallocSizeOverflow]))
      else
        case my_malloc s total_size of
          None \<Rightarrow> None
        | Some (p, s1, d) \<Rightarrow>
            if p = 0 then Some (Inr (p, s1, d))
            else if size_blk (blocks s1 (fromData p)) < total_size then Some (Inl BufferOverrun)
            else Some (Inr (p, s1\<lparr>bytes := memset (bytes s1) p 0 total_size\<rparr>, d)))"

section \<open>The block chain as a list\<close>

text \<open>
  \<open>chain h p bs\<close>: following \<open>next\<close> from \<open>p\<close> visits exactly the blocks \<open>bs\<close>, in
  this order, and then reaches the null pointer.
\<close>

fun chain :: "(ptr \<Rightarrow> MemoryBlock) \<Rightarrow> ptr \<Rightarrow> ptr list \<Rightarrow> bool" where
  "chain h p [] \<longleftrightarrow> p = 0"
| "chain h p (b # bs) \<longleftrightarrow> p = b \<and> b \<noteq> 0 \<and> chain h (next_blk (h b)) bs"

text \<open>
  G1 and G4: the blocks \<open>bs\<close> tile the addresses from \<open>a\<close> to \<open>e\<close>, each block being
  its header followed by a payload of at least \<open>MIN_BLOCK_SIZE\<close> bytes. Addresses are
  compared as natural numbers, so a tiling never wraps around.
\<close>

fun tiles :: "(ptr \<Rightarrow> MemoryBlock) \<Rightarrow> nat \<Rightarrow> ptr list \<Rightarrow> nat \<Rightarrow> bool" where
  "tiles h a [] e \<longleftrightarrow> a = e"
| "tiles h a (b # bs) e \<longleftrightarrow>
     unat b = a \<and> unat MIN_BLOCK_SIZE \<le> unat (size_blk (h b))
     \<and> tiles h (a + unat sizeof_MemoryBlock + unat (size_blk (h b))) bs e"

text \<open>G2: every block's \<open>prev\<close> is the block before it; the head's \<open>prev\<close> is \<open>p\<close>.\<close>

fun back_links :: "(ptr \<Rightarrow> MemoryBlock) \<Rightarrow> ptr \<Rightarrow> ptr list \<Rightarrow> bool" where
  "back_links h p [] \<longleftrightarrow> True"
| "back_links h p (b # bs) \<longleftrightarrow> prev_blk (h b) = p \<and> back_links h b bs"


text \<open>
  The region of an engine is valid when it starts at a non-null address, ends
  \<open>heap_size\<close> bytes later without wrapping around, and has room for one header and
  a minimal payload.
\<close>

definition valid_region :: "MemoryAllocator \<Rightarrow> bool" where
  "valid_region s \<longleftrightarrow>
     heap_start s \<noteq> 0 \<and> heap_end s = heap_start s + heap_size s
     \<and> unat (heap_start s) + unat (heap_size s) < 2 ^ 64
     \<and> unat sizeof_MemoryBlock + unat MIN_BLOCK_SIZE \<le> unat (heap_size s)"

text \<open>
  A well-formed engine: the chain from the head is the list \<open>bs\<close>, it starts at the
  beginning of the region, and G1, G2 and G4 hold.
\<close>

definition well_formed :: "MemoryAllocator \<Rightarrow> ptr list \<Rightarrow> bool" where
  "well_formed s bs \<longleftrightarrow>
     valid_region s \<and> free_list s = heap_start s \<and> bs \<noteq> []
     \<and> chain (blocks s) (free_list s) bs
     \<and> tiles (blocks s) (unat (heap_start s)) bs (unat (heap_end s))
     \<and> back_links (blocks s) 0 bs"

text \<open>The block a first-fit search for \<open>need\<close> bytes accepts.\<close>

definition fits :: "(ptr \<Rightarrow> MemoryBlock) \<Rightarrow> size_t \<Rightarrow> ptr \<Rightarrow> bool" where
  "fits h need b \<longleftrightarrow> is_free (h b) \<and> need \<le> size_blk (h b)"

section \<open>Two concrete engines\<close>

text \<open>
  The header read from 32 bytes that all hold \<open>255\<close>: every bit of every field is
  set.
\<close>

definition blank_hdr :: MemoryBlock where
  "blank_hdr = \<lparr>size_blk = - 1, is_free = True, next_blk = - 1, prev_blk = - 1\<rparr>"

text \<open>
  A freshly initialised engine on the 4096 bytes at address 4096, in a memory whose
  bytes all read \<open>255\<close> before the initialisation, and with them every header.
\<close>

definition fresh_engine :: MemoryAllocator where
  "fresh_engine = initializeHeap
     \<lparr>heap_start = 4096, heap_end = 8192, heap_size = 4096, free_list = 0,
      stats = zero_stats, owns_memory = True, blocks = (\<lambda>_. blank_hdr), bytes = (\<lambda>_. 255)\<rparr>"

text \<open>The same engine after \<open>my_malloc(100)\<close>.\<close>

definition live_engine :: MemoryAllocator where
  "live_engine =
     (case my_malloc fresh_engine 100 of Some (p, s, d) \<Rightarrow> s | None \<Rightarrow> fresh_engine)"


section \<open>Auxiliary definitions for the chain proofs\<close>

fun path :: "(ptr \<Rightarrow> MemoryBlock) \<Rightarrow> ptr \<Rightarrow> ptr list \<Rightarrow> ptr \<Rightarrow> bool" where
  "path h p [] q \<longleftrightarrow> p = q"
| "path h p (b # bs) q \<longleftrightarrow> p = b \<and> b \<noteq> 0 \<and> path h (next_blk (h b)) bs q"

definition merge_headers :: "(ptr \<Rightarrow> MemoryBlock) \<Rightarrow> ptr \<Rightarrow> ptr \<Rightarrow> (ptr \<Rightarrow> MemoryBlock)" where
  "merge_headers h a c =
     (let h1 = set_size h a (size_blk (h a) + (sizeof_MemoryBlock + size_blk (h c)));
          h2 = set_next h1 a (next_blk (h1 c))
      in if next_blk (h2 a) \<noteq> 0 then set_prev h2 (next_blk (h2 a)) a else h2)"

definition will_split :: "(ptr \<Rightarrow> MemoryBlock) \<Rightarrow> ptr \<Rightarrow> size_t \<Rightarrow> bool" where
  "will_split h b need \<longleftrightarrow> \<not> size_blk (h b) - need < sizeof_MemoryBlock + MIN_BLOCK_SIZE"

definition take_block :: "MemoryAllocator \<Rightarrow> ptr \<Rightarrow> size_t \<Rightarrow> MemoryAllocator" where
  "take_block s b need =
     (let s1 = snd (splitBlock s b need) in write_is_free s1 b False)"

definition chain_after_take ::
  "(ptr \<Rightarrow> MemoryBlock) \<Rightarrow> size_t \<Rightarrow> ptr list \<Rightarrow> ptr \<Rightarrow> ptr list \<Rightarrow> ptr list" where
  "chain_after_take h need xs b ys =
     xs @ b # (if will_split h b need then [b + sizeof_MemoryBlock + need] else []) @ ys"

definition malloc_stats :: "MemoryAllocator \<Rightarrow> ptr \<Rightarrow> ptr list \<Rightarrow> MemoryStats" where
  "malloc_stats t b bs' =
     (stats t)\<lparr>used_memory := used_memory (stats t) + size_blk (blocks t b),
               free_memory := free_memory (stats t) - size_blk (blocks t b),
               total_allocations := total_allocations (stats t) + 1,
               block_count := of_nat (length bs'),
               free_block_count := of_nat (length (filter (\<lambda>x. is_free (blocks t x)) bs'))\<rparr>"

definition release :: "MemoryAllocator \<Rightarrow> ptr \<Rightarrow> MemoryAllocator" where
  "release s b =
     (let s1 = updateStatsAfterFree s (size_blk (blocks s b))
      in write_is_free s1 b True)"

definition merge_blocks :: "MemoryAllocator \<Rightarrow> ptr \<Rightarrow> ptr \<Rightarrow> MemoryAllocator" where
  "merge_blocks s a c =
     (let s1 = write_size s a (size_blk (blocks s a) + (sizeof_MemoryBlock + size_blk (blocks s c)));
          s2 = write_next s1 a (next_blk (blocks s1 c));
          s3 = (if next_blk (blocks s2 a) \<noteq> 0
                then write_prev s2 (next_blk (blocks s2 a)) a else s2)
      in s3\<lparr>stats := (stats s)\<lparr>block_count := block_count (stats s) - 1,
                                 free_block_count := free_block_count (stats s) - 1,
                                 coalesce_count := coalesce_count (stats s) + 1\<rparr>\<rparr>)"

definition merge_next :: "MemoryAllocator \<Rightarrow> MemoryAllocator \<Rightarrow> ptr \<Rightarrow> ptr list \<Rightarrow> MemoryAllocator" where
  "merge_next s0 s b ys =
     (case ys of [] \<Rightarrow> s | c # cs \<Rightarrow> if is_free (blocks s0 c) then merge_blocks s b c else s)"

definition merge_prev :: "MemoryAllocator \<Rightarrow> MemoryAllocator \<Rightarrow> ptr list \<Rightarrow> ptr \<Rightarrow> MemoryAllocator" where
  "merge_prev s0 s xs b =
     (if xs \<noteq> [] \<and> is_free (blocks s0 (last xs)) then merge_blocks s (last xs) b else s)"

definition free_state :: "MemoryAllocator \<Rightarrow> ptr list \<Rightarrow> ptr \<Rightarrow> ptr list \<Rightarrow> MemoryAllocator" where
  "free_state s xs b ys = merge_prev s (merge_next s (release s b) b ys) xs b"

definition rest_after_free :: "(ptr \<Rightarrow> MemoryBlock) \<Rightarrow> ptr list \<Rightarrow> ptr list" where
  "rest_after_free h ys =
     (case ys of [] \<Rightarrow> [] | c # cs \<Rightarrow> if is_free (h c) then cs else c # cs)"

definition chain_after_free ::
  "(ptr \<Rightarrow> MemoryBlock) \<Rightarrow> ptr list \<Rightarrow> ptr \<Rightarrow> ptr list \<Rightarrow> ptr list" where
  "chain_after_free h xs b ys =
     (if xs \<noteq> [] \<and> is_free (h (last xs)) then xs @ rest_after_free h ys
      else xs @ b # rest_after_free h ys)"

definition drift :: "MemoryAllocator \<Rightarrow> size_t \<Rightarrow> size_t \<Rightarrow> MemoryAllocator" where
  "drift s c f =
     s\<lparr>stats := (stats s)\<lparr>block_count := block_count (stats s) + c,
                           free_block_count := free_block_count (stats s) + f\<rparr>\<rparr>"

definition expands_in_place :: "MemoryAllocator \<Rightarrow> ptr \<Rightarrow> size_t \<Rightarrow> bool" where
  "expands_in_place s p new_size \<longleftrightarrow>
     p \<noteq> 0 \<and> new_size \<noteq> 0 \<and> isValidPointer s p
     \<and> \<not> alignSize new_size \<le> size_blk (blocks s (fromData p))
     \<and> next_blk (blocks s (fromData p)) \<noteq> 0
     \<and> is_free (blocks s (next_blk (blocks s (fromData p))))
     \<and> alignSize new_size \<le> size_blk (blocks s (fromData p)) + sizeof_MemoryBlock
           + size_blk (blocks s (next_blk (blocks s (fromData p))))"

definition relocates :: "MemoryAllocator \<Rightarrow> ptr \<Rightarrow> size_t \<Rightarrow> bool" where
  "relocates s p new_size \<longleftrightarrow>
     p \<noteq> 0 \<and> new_size \<noteq> 0 \<and> isValidPointer s p
     \<and> \<not> alignSize new_size \<le> size_blk (blocks s (fromData p))
     \<and> \<not> expands_in_place s p new_size"

definition expand_state :: "MemoryAllocator \<Rightarrow> ptr \<Rightarrow> MemoryAllocator" where
  "expand_state s b =
     (let c = next_blk (blocks s b);
          s1 = write_size s b (size_blk (blocks s b) + sizeof_MemoryBlock + size_blk (blocks s c));
          s2 = write_next s1 b (next_blk (blocks s1 c));
          s3 = (if next_blk (blocks s2 b) \<noteq> 0
                then write_prev s2 (next_blk (blocks s2 b)) b else s2)
      in s3\<lparr>stats := (stats s)\<lparr>free_block_count := free_block_count (stats s) - 1,
                                 block_count := block_count (stats s) - 1\<rparr>\<rparr>)"

text \<open>The engine after \<open>my_malloc(100)\<close> twice.\<close>

definition two_live_engine :: MemoryAllocator where
  "two_live_engine =
     (case my_malloc live_engine 100 of Some (p, s, d) \<Rightarrow> s | None \<Rightarrow> live_engine)"

definition used_sum :: "(ptr \<Rightarrow> MemoryBlock) \<Rightarrow> ptr list \<Rightarrow> size_t" where
  "used_sum h bs = sum_list (map (\<lambda>b. if is_free (h b) then 0 else size_blk (h b)) bs)"

definition free_sum :: "(ptr \<Rightarrow> MemoryBlock) \<Rightarrow> ptr list \<Rightarrow> size_t" where
  "free_sum h bs = sum_list (map (\<lambda>b. if is_free (h b) then size_blk (h b) else 0) bs)"

definition free_blocks :: "(ptr \<Rightarrow> MemoryBlock) \<Rightarrow> ptr list \<Rightarrow> ptr list" where
  "free_blocks h bs = filter (\<lambda>b. is_free (h b)) bs"

definition spec_G6 :: "MemoryAllocator \<Rightarrow> ptr list \<Rightarrow> bool" where
  "spec_G6 s bs \<longleftrightarrow>
     used_memory (stats s) = used_sum (blocks s) bs
     \<and> free_memory (stats s) = free_sum (blocks s) bs
     \<and> block_count (stats s) = of_nat (length bs)
     \<and> free_block_count (stats s) = of_nat (length (free_blocks (blocks s) bs))
     \<and> used_memory (stats s) + free_memory (stats s)
           + block_count (stats s) * sizeof_MemoryBlock = total_heap_size (stats s)"

definition accounting :: "MemoryAllocator \<Rightarrow> ptr list \<Rightarrow> bool" where
  "accounting s bs \<longleftrightarrow>
     used_memory (stats s) = used_sum (blocks s) bs
     \<and> free_memory (stats s)
         = free_sum (blocks s) bs + (of_nat (length bs) - 1) * sizeof_MemoryBlock
     \<and> block_count (stats s) = of_nat (length bs)
     \<and> free_block_count (stats s) = of_nat (length (free_blocks (blocks s) bs))
     \<and> used_memory (stats s) + free_memory (stats s) + sizeof_MemoryBlock
         = total_heap_size (stats s)"

text \<open>
  The blocks of a chain that are not free, and the two halves of a run that allocates
  a list of sizes and then frees a list of pointers. \<open>malloc_all\<close> returns the
  pointers in the order of the calls, and the engine after the last call.
\<close>

definition live :: "MemoryAllocator \<Rightarrow> ptr list \<Rightarrow> ptr set" where
  "live s bs = {b \<in> set bs. \<not> is_free (blocks s b)}"



text \<open>
  The header that the bytes of memory hold at an address, in the layout of
  \<open>store64\<close> and of the writes to header fields. An engine is coherent on a chain
  when the header view agrees with it at every block of the chain. Two addresses are
  far from each other when the 32 bytes from one on do not meet the 32 bytes from the
  other on.
\<close>

definition load64 :: "(ptr \<Rightarrow> 8 word) \<Rightarrow> ptr \<Rightarrow> 64 word" where
  "load64 m a =
     ucast (m a) OR push_bit 8 (ucast (m (a + 1))) OR push_bit 16 (ucast (m (a + 2)))
     OR push_bit 24 (ucast (m (a + 3))) OR push_bit 32 (ucast (m (a + 4)))
     OR push_bit 40 (ucast (m (a + 5))) OR push_bit 48 (ucast (m (a + 6)))
     OR push_bit 56 (ucast (m (a + 7)))"

definition header_at :: "(ptr \<Rightarrow> 8 word) \<Rightarrow> ptr \<Rightarrow> MemoryBlock" where
  "header_at m a =
     \<lparr>size_blk = load64 m a, is_free = (m (a + 8) \<noteq> 0),
      next_blk = load64 m (a + 16), prev_blk = load64 m (a + 24)\<rparr>"

definition far :: "ptr \<Rightarrow> ptr \<Rightarrow> bool" where
  "far x w \<longleftrightarrow> 32 \<le> x - w \<and> 32 \<le> w - x"

definition coherent_at :: "MemoryAllocator \<Rightarrow> ptr \<Rightarrow> bool" where
  "coherent_at s x \<longleftrightarrow> blocks s x = header_at (bytes s) x"

definition coherent :: "MemoryAllocator \<Rightarrow> ptr list \<Rightarrow> bool" where
  "coherent s bs \<longleftrightarrow> (\<forall>b \<in> set bs. coherent_at s b)"

section \<open>Evaluating the operations on concrete engines\<close>

lemmas hdr_writes = set_size_def set_is_free_def set_next_def set_prev_def

lemmas state_writes = write_size_def write_is_free_def write_next_def write_prev_def

lemma write_size_fields [simp]:
  "blocks (write_size s b v) = set_size (blocks s) b v"
  "bytes (write_size s b v) = store64 (bytes s) b v"
  "stats (write_size s b v) = stats s"
  "heap_start (write_size s b v) = heap_start s" "heap_end (write_size s b v) = heap_end s"
  "heap_size (write_size s b v) = heap_size s" "free_list (write_size s b v) = free_list s"
  "owns_memory (write_size s b v) = owns_memory s"
  by (simp_all add: write_size_def)

lemma write_is_free_fields [simp]:
  "blocks (write_is_free s b f) = set_is_free (blocks s) b f"
  "bytes (write_is_free s b f) = (bytes s)(b + 8 := (if f then 1 else 0))"
  "stats (write_is_free s b f) = stats s"
  "heap_start (write_is_free s b f) = heap_start s" "heap_end (write_is_free s b f) = heap_end s"
  "heap_size (write_is_free s b f) = heap_size s" "free_list (write_is_free s b f) = free_list s"
  "owns_memory (write_is_free s b f) = owns_memory s"
  by (simp_all add: write_is_free_def)

lemma write_next_fields [simp]:
  "blocks (write_next s b v) = set_next (blocks s) b v"
  "bytes (write_next s b v) = store64 (bytes s) (b + 16) v"
  "stats (write_next s b v) = stats s"
  "heap_start (write_next s b v) = heap_start s" "heap_end (write_next s b v) = heap_end s"
  "heap_size (write_next s b v) = heap_size s" "free_list (write_next s b v) = free_list s"
  "owns_memory (write_next s b v) = owns_memory s"
  by (simp_all add: write_next_def)

lemma write_prev_fields [simp]:
  "blocks (write_prev s b v) = set_prev (blocks s) b v"
  "bytes (write_prev s b v) = store64 (bytes s) (b + 24) v"
  "stats (write_prev s b v) = stats s"
  "heap_start (write_prev s b v) = heap_start s" "heap_end (write_prev s b v) = heap_end s"
  "heap_size (write_prev s b v) = heap_size s" "free_list (write_prev s b v) = free_list s"
  "owns_memory (write_prev s b v) = owns_memory s"
  by (simp_all add: write_prev_def)

lemma if_fields [simp]:
  "blocks (if c then x else y) = (if c then blocks x else blocks y)"
  "stats (if c then x else y) = (if c then stats x else stats y)"
  "heap_start (if c then x else y) = (if c then heap_start x else heap_start y)"
  "heap_end (if c then x else y) = (if c then heap_end x else heap_end y)"
  "heap_size (if c then x else y) = (if c then heap_size x else heap_size y)"
  "free_list (if c then x else y) = (if c then free_list x else free_list y)"
  "owns_memory (if c then x else y) = (if c then owns_memory x else owns_memory y)"
  by simp_all

lemmas alloc_consts = sizeof_MemoryBlock_def MIN_BLOCK_SIZE_def ALIGNMENT_def

lemmas eval_defs = fresh_engine_def initializeHeap_def my_malloc_def findFreeBlock_def
  findFreeBlock_loop.simps recalculate_loop.simps recalculateBlockCounts_def
  updateStatsAfterAlloc_def splitBlock_def alignSize_def getData_def fromData_def Let_def
  blank_hdr_def zero_stats_def

lemma fresh_engine_fields:
  "heap_start fresh_engine = 4096" "heap_end fresh_engine = 8192"
  "blocks fresh_engine 4096 = \<lparr>size_blk = 4064, is_free = True, next_blk = 0, prev_blk = 0\<rparr>"
  "stats fresh_engine = \<lparr>total_heap_size = 4096, used_memory = 0, free_memory = 4064,
     total_allocations = 0, total_frees = 0, block_count = 1, free_block_count = 1,
     coalesce_count = 0, split_count = 0\<rparr>"
  "free_list fresh_engine = 4096"
  by (simp_all add: eval_defs hdr_writes alloc_consts)

lemma live_engine_fields:
  "heap_start live_engine = 4096" "heap_end live_engine = 8192"
  "blocks live_engine 4096 = \<lparr>size_blk = 104, is_free = False, next_blk = 4232, prev_blk = 0\<rparr>"
  "blocks live_engine 4232 = \<lparr>size_blk = 3928, is_free = True, next_blk = 0, prev_blk = 4096\<rparr>"
  "stats live_engine = \<lparr>total_heap_size = 4096, used_memory = 104, free_memory = 3960,
     total_allocations = 1, total_frees = 0, block_count = 2, free_block_count = 1,
     coalesce_count = 0, split_count = 1\<rparr>"
  "free_list live_engine = 4096"
  by (simp_all add: live_engine_def eval_defs hdr_writes alloc_consts)

section \<open>The size computation at the top of the range\<close>

lemma and_not_7_small:
  fixes x :: size_t
  assumes "x < 8"
  shows "x AND NOT 7 = 0"
proof -
  from assms have "x < 2 ^ 3" by simp
  then have "x AND mask 3 = x" by (rule less_mask_eq)
  moreover have "(mask 3 :: size_t) = 7" by (simp add: mask_eq_exp_minus_1)
  ultimately have "x AND 7 = x" by simp
  then have "x AND NOT 7 = (x AND 7) AND NOT 7" by simp
  also have "\<dots> = 0" by (simp add: and.assoc)
  finally show ?thesis .
qed

lemma alignSize_wraps:
  fixes sz :: size_t
  assumes "- 1 - 7 < sz"
  shows "alignSize sz = 0"
proof -
  have 1: "unat sz > 2 ^ 64 - 8" using assms by (simp add: word_less_nat_alt)
  have 2: "unat sz < 2 ^ 64" using unsigned_less [of sz] by simp
  have "unat (sz + 7) = unat sz + 7 - 2 ^ 64"
    using 1 2 by (simp add: unat_word_ariths mod_if)
  then have "unat (sz + 7) < 8" using 1 2 by simp
  then have "sz + 7 < 8" by (simp add: word_less_nat_alt)
  then have "(sz + 7) AND NOT 7 = 0" by (rule and_not_7_small)
  then show ?thesis
    by (simp add: alignSize_def ALIGNMENT_def add.commute)
qed

lemma alignSize_below_wrap: "alignSize (- 1 - 7) = - 8"
  by (simp add: alignSize_def alloc_consts)

lemma and_not_7:
  fixes x :: size_t
  shows "x AND NOT 7 = x - x mod 8"
proof -
  have m: "x AND 7 = x mod 8"
    using word_mod_2p_is_mask [of 3 x] by (simp add: mask_eq_exp_minus_1)
  have "x - (x AND 7) = x AND NOT (x AND 7)"
    by (rule disjunctive_diff) (simp add: bit_and_iff)
  also have "\<dots> = x AND NOT 7"
    by (rule bit_eqI) (auto simp add: bit_simps)
  finally show ?thesis by (simp add: m)
qed

lemma alignSize_rounds_up:
  fixes sz :: size_t
  assumes "\<not> - 1 - 7 < sz"
  shows "unat (alignSize sz) = (unat sz + 7) div 8 * 8"
proof -
  have 1: "unat sz + 7 < 2 ^ 64" using assms by (simp add: word_less_nat_alt)
  have 2: "unat (sz + 7) = unat sz + 7" using 1 by (simp add: unat_word_ariths)
  have 3: "unat ((sz + 7) mod 8) = (unat sz + 7) mod 8"
    by (simp add: unat_mod 2)
  have "(sz + 7) mod 8 \<le> sz + 7" by (simp add: word_le_nat_alt 3 2)
  then have "unat (sz + 7 - (sz + 7) mod 8) = unat (sz + 7) - unat ((sz + 7) mod 8)"
    by (rule unat_sub)
  moreover have "alignSize sz = (sz + 7) AND NOT 7"
    by (simp add: alignSize_def ALIGNMENT_def add.commute)
  ultimately have "unat (alignSize sz) = (unat sz + 7) - (unat sz + 7) mod 8"
    by (simp only: and_not_7 2 3)
  also have "\<dots> = (unat sz + 7) div 8 * 8"
    by (simp add: minus_mod_eq_div_mult)
  finally show ?thesis .
qed

lemma alignSize_ge:
  fixes sz :: size_t
  assumes "\<not> - 1 - 7 < sz"
  shows "sz \<le> alignSize sz"
proof -
  have "unat sz \<le> (unat sz + 7) div 8 * 8" by presburger
  then show ?thesis by (simp add: word_le_nat_alt alignSize_rounds_up [OF assms])
qed
lemma my_malloc_fresh_16:
  "map_option (\<lambda>(p, s', d). (p, size_blk (blocks s' (fromData p)), d))
     (my_malloc fresh_engine 16) = Some (4128, 16, [])"
  by (simp add: eval_defs hdr_writes alloc_consts)

text \<open>
  C9. For every requested size in \<open>(SIZE_MAX - 7, SIZE_MAX]\<close> the alignment
  computation wraps to \<open>0\<close>, so \<open>my_malloc\<close> behaves exactly as for a request of
  \<open>MIN_BLOCK_SIZE = 16\<close> bytes; on the fresh 4096-byte engine it succeeds and returns
  the payload of a block of only 16 bytes, with no diagnostic.
\<close>

theorem my_malloc_size_wraps:
  fixes sz :: size_t
  assumes "- 1 - 7 < sz"
  shows "alignSize sz = 0 \<and> my_malloc s sz = my_malloc s MIN_BLOCK_SIZE
    \<and> map_option (\<lambda>(p, s', d). (p, size_blk (blocks s' (fromData p)), d))
          (my_malloc fresh_engine sz) = Some (getData (heap_start fresh_engine), 16, [])"
proof -
  have a: "alignSize sz = 0" using assms by (rule alignSize_wraps)
  have nz: "sz \<noteq> 0" using assms by auto
  have c: "alignSize MIN_BLOCK_SIZE = MIN_BLOCK_SIZE" "0 < MIN_BLOCK_SIZE" "MIN_BLOCK_SIZE \<noteq> 0"
    by (simp_all add: alignSize_def alloc_consts)
  have b: "my_malloc s sz = my_malloc s MIN_BLOCK_SIZE" for s
    using a nz c by (simp add: my_malloc_def Let_def)
  have "my_malloc fresh_engine sz = my_malloc fresh_engine 16"
    using b [of fresh_engine] by (simp add: MIN_BLOCK_SIZE_def)
  with a b [of s] my_malloc_fresh_16 show ?thesis
    by (simp add: getData_def sizeof_MemoryBlock_def fresh_engine_fields)
qed

theorem my_malloc_size_wraps_witness:
  "- 1 - 7 < (- 1 :: size_t) \<and> alignSize (- 1) = 0
    \<and> my_malloc fresh_engine (- 1) = my_malloc fresh_engine MIN_BLOCK_SIZE
    \<and> map_option (\<lambda>(p, s', d). (p, size_blk (blocks s' (fromData p)), d))
          (my_malloc fresh_engine (- 1)) = Some (getData (heap_start fresh_engine), 16, [])"
proof -
  have h: "- 1 - 7 < (- 1 :: size_t)" by simp
  show ?thesis
    using h my_malloc_size_wraps [OF h, of fresh_engine] by (rule conjI)
qed

section \<open>Reallocation that fits in place\<close>

text \<open>
  C7. For a non-null pointer \<open>p\<close> that passes the range check and a non-zero
  \<open>new_size\<close> whose aligned value is at most the size of the block of \<open>p\<close>,
  \<open>my_realloc\<close> returns \<open>p\<close>, writes no diagnostic and leaves the whole engine state
  (every header, every counter) as it was.
\<close>

theorem my_realloc_fits_in_place:
  assumes "p \<noteq> 0" and "new_size \<noteq> 0" and "isValidPointer s p"
    and "alignSize new_size \<le> size_blk (blocks s (fromData p))"
  shows "my_realloc s p new_size = Some (p, s, [])"
  using assms by (simp add: my_realloc_def Let_def)

theorem my_realloc_fits_in_place_witness:
  "my_realloc live_engine 4128 50 = Some (4128, live_engine, [])"
proof -
  have "isValidPointer live_engine 4128"
    by (simp add: isValidPointer_def live_engine_fields sizeof_MemoryBlock_def)
  moreover have "alignSize 50 \<le> size_blk (blocks live_engine (fromData 4128))"
    by (simp add: alignSize_def fromData_def alloc_consts live_engine_fields)
  ultimately show ?thesis
    using my_realloc_fits_in_place [of 4128 50 live_engine] by simp
qed

section \<open>The guards of deallocation\<close>

text \<open>
  C4. \<open>my_free\<close> returns the state unchanged for a null pointer (no diagnostic), for a
  pointer outside \<open>[heap_start + sizeof(MemoryBlock), heap_end)\<close> (invalid-pointer
  diagnostic) and for a pointer whose header is already free (double-free diagnostic);
  so it changes the state only for a non-null, in-range pointer to a header that is
  not free.
\<close>

theorem my_free_guards:
  "(p = 0 \<longrightarrow> my_free s p = (s, []))
   \<and> (p \<noteq> 0 \<and> \<not> isValidPointer s p \<longrightarrow> my_free s p = (s, [FreeInvalidPointer]))
   \<and> (p \<noteq> 0 \<and> isValidPointer s p \<and> is_free (blocks s (fromData p))
        \<longrightarrow> my_free s p = (s, [FreeDoubleFree]))
   \<and> (fst (my_free s p) \<noteq> s
        \<longrightarrow> p \<noteq> 0 \<and> isValidPointer s p \<and> \<not> is_free (blocks s (fromData p)))"
  by (simp add: my_free_def Let_def)

theorem my_free_guards_witness:
  "my_free fresh_engine 0 = (fresh_engine, [])
   \<and> my_free fresh_engine 5 = (fresh_engine, [FreeInvalidPointer])
   \<and> my_free fresh_engine 4128 = (fresh_engine, [FreeDoubleFree])
   \<and> fst (my_free live_engine 4128) \<noteq> live_engine
   \<and> isValidPointer live_engine 4128 \<and> \<not> is_free (blocks live_engine (fromData 4128))"
proof -
  have a: "\<not> isValidPointer fresh_engine 5"
    by (simp add: isValidPointer_def fresh_engine_fields sizeof_MemoryBlock_def)
  have b: "isValidPointer fresh_engine 4128 \<and> is_free (blocks fresh_engine (fromData 4128))"
    by (simp add: isValidPointer_def fresh_engine_fields fromData_def sizeof_MemoryBlock_def)
  have "total_frees (stats (fst (my_free live_engine 4128))) = 1"
    by (simp add: my_free_def isValidPointer_def fromData_def sizeof_MemoryBlock_def
        live_engine_fields Let_def updateStatsAfterFree_def coalesceBlock_def
        coalesce_next_def coalesce_prev_def hdr_writes)
  then have c: "fst (my_free live_engine 4128) \<noteq> live_engine"
    by (auto simp add: live_engine_fields)
  have five: "(5 :: ptr) \<noteq> 0" and p: "(4128 :: ptr) \<noteq> 0" by simp_all
  have 1: "my_free fresh_engine 0 = (fresh_engine, [])"
    using my_free_guards [of 0 fresh_engine] by blast
  have 2: "my_free fresh_engine 5 = (fresh_engine, [FreeInvalidPointer])"
    using my_free_guards [of 5 fresh_engine] a five by blast
  have 3: "my_free fresh_engine 4128 = (fresh_engine, [FreeDoubleFree])"
    using my_free_guards [of 4128 fresh_engine] b p by blast
  have 4: "isValidPointer live_engine 4128 \<and> \<not> is_free (blocks live_engine (fromData 4128))"
    using my_free_guards [of 4128 live_engine] c by blast
  from 1 2 3 4 c show ?thesis by blast
qed

section \<open>Moved-from engines\<close>

text \<open>
  C8, as the code has it. After move construction or move assignment from another
  engine, the moved-from engine has null \<open>heap_start\<close>, \<open>heap_end\<close> and \<open>free_list\<close>
  and does not own memory; all its other members, the accounting counters among them,
  keep the values they had before the move.
\<close>

theorem moved_from_engine:
  "snd (move_construct other) =
     other\<lparr>heap_start := 0, heap_end := 0, free_list := 0, owns_memory := False\<rparr>
   \<and> fst (snd (move_assign False this other)) =
     other\<lparr>heap_start := 0, heap_end := 0, free_list := 0, owns_memory := False\<rparr>
   \<and> stats (snd (move_construct other)) = stats other
   \<and> stats (fst (snd (move_assign False this other))) = stats other"
  by (simp add: move_construct_def move_assign_def)

text \<open>
  The counters of a moved-from engine are not zero: moving from the fresh engine leaves
  \<open>block_count = 1\<close> and \<open>total_heap_size = 4096\<close> behind.
\<close>

theorem moved_from_counters_counterexample:
  "block_count (stats (snd (move_construct fresh_engine))) \<noteq> 0
   \<and> total_heap_size (stats (fst (snd (move_assign False fresh_engine fresh_engine)))) \<noteq> 0"
  by (simp add: move_construct_def move_assign_def fresh_engine_fields)

section \<open>Zeroed allocation\<close>

lemma recalculateBlockCounts_frame:
  "recalculateBlockCounts s = Some s' \<Longrightarrow> bytes s' = bytes s \<and> blocks s' = blocks s"
  by (auto simp add: recalculateBlockCounts_def split: option.splits)





text \<open>
  When \<open>count * sz\<close> lies in \<open>(SIZE_MAX - 7, SIZE_MAX]\<close> the block \<open>my_malloc\<close>
  returns has 16 bytes and \<open>memset\<close> is asked to write \<open>count * sz\<close> bytes:
  \<open>my_calloc(1, SIZE_MAX)\<close> on the fresh engine runs past the block.
\<close>

lemma my_calloc_overrun: "my_calloc fresh_engine 1 (- 1) = Some (Inl BufferOverrun)"
  by (simp add: my_calloc_def eval_defs hdr_writes alloc_consts)

section \<open>The first-fit search on a chain\<close>

lemma findFreeBlock_loop_chain:
  "chain h p bs \<Longrightarrow>
   findFreeBlock_loop h p need =
     Some (case find (fits h need) bs of None \<Rightarrow> 0 | Some b \<Rightarrow> b)"
proof (induction bs arbitrary: p)
  case Nil
  then show ?case by (simp add: findFreeBlock_loop.simps)
next
  case (Cons b bs)
  then show ?case
    by (subst findFreeBlock_loop.simps) (simp add: fits_def [abs_def])
qed

lemma need_max:
  "(if alignSize sz < MIN_BLOCK_SIZE then MIN_BLOCK_SIZE else alignSize sz)
     = max (alignSize sz) MIN_BLOCK_SIZE"
  by (auto simp add: max_def)

lemma my_malloc_no_fit:
  assumes "chain (blocks s) (free_list s) bs" and "sz \<noteq> 0"
    and "\<forall>b \<in> set bs. \<not> fits (blocks s) (max (alignSize sz) MIN_BLOCK_SIZE) b"
  shows "my_malloc s sz = Some (0, s, [MallocOutOfMemory (max (alignSize sz) MIN_BLOCK_SIZE)])"
proof -
  have "find (fits (blocks s) (max (alignSize sz) MIN_BLOCK_SIZE)) bs = None"
    using assms(3) by (simp add: find_None_iff)
  then have "findFreeBlock s (max (alignSize sz) MIN_BLOCK_SIZE) = Some 0"
    using findFreeBlock_loop_chain [OF assms(1)] by (simp add: findFreeBlock_def)
  then show ?thesis
    using assms(2) by (simp add: my_malloc_def Let_def need_max)
qed

text \<open>
  C5. When the chain from the head is a finite list of blocks none of which is free
  with \<open>need = max (alignSize sz) MIN_BLOCK_SIZE\<close> bytes, \<open>my_malloc\<close> returns the
  null pointer, writes the out-of-memory diagnostic, and returns the engine state it
  was given: no header field and no counter changes.
\<close>

theorem my_malloc_out_of_memory:
  assumes "chain (blocks s) (free_list s) bs" and "sz \<noteq> 0"
    and "\<forall>b \<in> set bs. \<not> fits (blocks s) (max (alignSize sz) MIN_BLOCK_SIZE) b"
  shows "my_malloc s sz = Some (0, s, [MallocOutOfMemory (max (alignSize sz) MIN_BLOCK_SIZE)])"
  using assms by (rule my_malloc_no_fit)

theorem my_malloc_out_of_memory_witness:
  "my_malloc live_engine 5000 = Some (0, live_engine, [MallocOutOfMemory 5000])"
proof -
  have c: "chain (blocks live_engine) (free_list live_engine) [4096, 4232]"
    by (simp add: live_engine_fields)
  have n: "max (alignSize 5000) MIN_BLOCK_SIZE = 5000"
    by (simp add: alignSize_def alloc_consts)
  have f: "\<forall>b \<in> set [4096, 4232].
      \<not> fits (blocks live_engine) (max (alignSize 5000) MIN_BLOCK_SIZE) b"
    by (simp add: n fits_def live_engine_fields)
  have z: "(5000 :: size_t) \<noteq> 0" by simp
  show ?thesis
    using my_malloc_out_of_memory [OF c z f] by (simp add: n)
qed

lemma unat_consts [simp]: "unat sizeof_MemoryBlock = 32" "unat MIN_BLOCK_SIZE = 16"
  by (simp_all add: alloc_consts)

lemma chain_path: "chain h p bs = path h p bs 0"
  by (induction bs arbitrary: p) auto

lemma path_append: "path h p (xs @ ys) q \<longleftrightarrow> (\<exists>m. path h p xs m \<and> path h m ys q)"
  by (induction xs arbitrary: p) auto

lemma path_cong:
  "(\<And>b. b \<in> set bs \<Longrightarrow> next_blk (h' b) = next_blk (h b)) \<Longrightarrow> path h' p bs q = path h p bs q"
  by (induction bs arbitrary: p) auto

lemma path_unique: "path h p bs q \<Longrightarrow> path h p bs q' \<Longrightarrow> q = q'"
  by (induction bs arbitrary: p) auto

lemma chain_unique: "chain h p bs \<Longrightarrow> chain h p cs \<Longrightarrow> bs = cs"
proof (induction bs arbitrary: p cs)
  case Nil
  then show ?case by (cases cs) auto
next
  case (Cons b bs)
  then show ?case by (cases cs) auto
qed

lemma tiles_append: "tiles h a (xs @ ys) e \<longleftrightarrow> (\<exists>m. tiles h a xs m \<and> tiles h m ys e)"
  by (induction xs arbitrary: a) auto

lemma tiles_cong:
  "(\<And>b. b \<in> set bs \<Longrightarrow> size_blk (h' b) = size_blk (h b)) \<Longrightarrow> tiles h' a bs e = tiles h a bs e"
  by (induction bs arbitrary: a) auto

lemma tiles_le: "tiles h a bs e \<Longrightarrow> a \<le> e"
  by (induction bs arbitrary: a) fastforce+

lemma tiles_mem:
  "tiles h a bs e \<Longrightarrow> b \<in> set bs \<Longrightarrow>
     a \<le> unat b \<and> unat b + 32 + unat (size_blk (h b)) \<le> e \<and> 16 \<le> unat (size_blk (h b))"
proof (induction bs arbitrary: a)
  case Nil
  then show ?case by simp
next
  case (Cons c bs)
  show ?case
  proof (cases "b = c")
    case True
    with Cons.prems tiles_le [of h _ bs e] show ?thesis by auto
  next
    case False
    with Cons.prems have "b \<in> set bs" by simp
    from Cons.IH [OF _ this] Cons.prems show ?thesis by fastforce
  qed
qed

lemma tiles_unique_end: "tiles h a bs e \<Longrightarrow> tiles h a bs e' \<Longrightarrow> e = e'"
  by (induction bs arbitrary: a) auto

lemma tiles_distinct: "tiles h a bs e \<Longrightarrow> distinct bs"
proof (induction bs arbitrary: a)
  case Nil
  then show ?case by simp
next
  case (Cons c bs)
  then have t: "tiles h (a + 32 + unat (size_blk (h c))) bs e" and c: "unat c = a" by auto
  have "c \<notin> set bs"
  proof
    assume "c \<in> set bs"
    from tiles_mem [OF t this] c show False by simp
  qed
  with Cons.IH [OF t] show ?case by simp
qed

lemma back_links_append:
  "back_links h p (xs @ ys) \<longleftrightarrow> back_links h p xs \<and> back_links h (last (p # xs)) ys"
  by (induction xs arbitrary: p) auto

lemma back_links_cong:
  "(\<And>b. b \<in> set bs \<Longrightarrow> prev_blk (h' b) = prev_blk (h b)) \<Longrightarrow>
   back_links h' p bs = back_links h p bs"
  by (induction bs arbitrary: p) auto




lemma recalculate_loop_chain:
  "chain h p bs \<Longrightarrow>
   recalculate_loop h p t f =
     Some (t + of_nat (length bs), f + of_nat (length (filter (\<lambda>b. is_free (h b)) bs)))"
proof (induction bs arbitrary: p t f)
  case Nil
  then show ?case by (simp add: recalculate_loop.simps)
next
  case (Cons b bs)
  then show ?case
    by (subst recalculate_loop.simps) (simp add: algebra_simps)
qed

lemma unat_add3:
  fixes b need :: size_t
  assumes "unat b + 32 + unat need < 2 ^ 64"
  shows "unat (b + 32 + need) = unat b + 32 + unat need"
  using assms by (simp add: unat_word_ariths)

lemma merge_headers_fields:
  "next_blk (merge_headers h a c x) = (if x = a then next_blk (h c) else next_blk (h x))"
  "size_blk (merge_headers h a c x) =
     (if x = a then size_blk (h a) + (sizeof_MemoryBlock + size_blk (h c)) else size_blk (h x))"
  "prev_blk (merge_headers h a c x) =
     (if x = next_blk (h c) \<and> next_blk (h c) \<noteq> 0 then a else prev_blk (h x))"
  "is_free (merge_headers h a c x) = is_free (h x)"
  by (simp_all add: merge_headers_def Let_def hdr_writes)

lemma splitBlock_no_split:
  "size_blk (blocks s b) - need < sizeof_MemoryBlock + MIN_BLOCK_SIZE \<Longrightarrow> splitBlock s b need = (False, s)"
  by (simp add: splitBlock_def Let_def)

lemma splitBlock_fields:
  assumes "\<not> size_blk (blocks s b) - need < sizeof_MemoryBlock + MIN_BLOCK_SIZE"
  defines "h' \<equiv> blocks (snd (splitBlock s b need))"
    and "n \<equiv> b + sizeof_MemoryBlock + need"
    and "h \<equiv> blocks s"
  shows
    "next_blk (h' x) = (if x = b then n else if x = n then next_blk (h b) else next_blk (h x))"
    "size_blk (h' x) = (if x = b then need else if x = n
        then size_blk (h b) - need - sizeof_MemoryBlock else size_blk (h x))"
    "prev_blk (h' x) = (if x = next_blk (h b) \<and> next_blk (h b) \<noteq> 0 then n
        else if x = n then b else prev_blk (h x))"
    "is_free (h' x) = (if x = n then True else is_free (h x))"
proof -
  have sp: "h' = (let h1 = set_size h n (size_blk (h b) - need - sizeof_MemoryBlock);
               h2 = set_is_free h1 n True;
               h3 = set_next h2 n (next_blk (h2 b));
               h4 = set_prev h3 n b;
               h5 = (if next_blk (h4 n) \<noteq> 0
                     then set_prev h4 (next_blk (h4 n)) n else h4);
               h6 = set_size h5 b need
           in set_next h6 b n)"
    using assms(1) unfolding h'_def n_def h_def
    by (simp add: splitBlock_def Let_def)
  show "next_blk (h' x) = (if x = b then n else if x = n then next_blk (h b) else next_blk (h x))"
    unfolding sp by (simp add: Let_def hdr_writes)
  show "size_blk (h' x) = (if x = b then need else if x = n
        then size_blk (h b) - need - sizeof_MemoryBlock else size_blk (h x))"
    unfolding sp by (simp add: Let_def hdr_writes)
  show "prev_blk (h' x) = (if x = next_blk (h b) \<and> next_blk (h b) \<noteq> 0 then n
        else if x = n then b else prev_blk (h x))"
    unfolding sp by (simp add: Let_def hdr_writes)
  show "is_free (h' x) = (if x = n then True else is_free (h x))"
    unfolding sp by (simp add: Let_def hdr_writes)
qed

lemma unat_sub2:
  fixes a b :: size_t
  assumes "unat b + 32 \<le> unat a"
  shows "unat (a - b - 32) = unat a - unat b - 32"
proof -
  have "b \<le> a" using assms by (simp add: word_le_nat_alt)
  then have 1: "unat (a - b) = unat a - unat b" by (rule unat_sub)
  then have "32 \<le> a - b" using assms by (simp add: word_le_nat_alt)
  then have "unat (a - b - 32) = unat (a - b) - unat (32 :: size_t)" by (rule unat_sub)
  with 1 show ?thesis by simp
qed

lemma path_next:
  "path h p (b # ys) 0 \<Longrightarrow> next_blk (h b) = (case ys of [] \<Rightarrow> 0 | c # _ \<Rightarrow> c)"
  by (cases ys) auto

lemma split_struct:
  fixes h h' :: "ptr \<Rightarrow> MemoryBlock"
  assumes p: "path h p (xs @ b # ys) 0"
    and t: "tiles h a (xs @ b # ys) e"
    and bl: "back_links h q (xs @ b # ys)"
    and e: "e < 2 ^ 64"
    and need: "16 \<le> unat need" "unat need + 48 \<le> unat (size_blk (h b))"
    and n: "n = b + 32 + need"
    and nx: "\<And>x. next_blk (h' x) =
        (if x = b then n else if x = n then next_blk (h b) else next_blk (h x))"
    and sz: "\<And>x. size_blk (h' x) =
        (if x = b then need else if x = n then size_blk (h b) - need - 32 else size_blk (h x))"
    and pv: "\<And>x. prev_blk (h' x) =
        (if x = next_blk (h b) \<and> next_blk (h b) \<noteq> 0 then n
         else if x = n then b else prev_blk (h x))"
  shows "path h' p (xs @ b # n # ys) 0 \<and> tiles h' a (xs @ b # n # ys) e
       \<and> back_links h' q (xs @ b # n # ys)"
proof -
  from t obtain m where tx: "tiles h a xs m" and tb: "tiles h m (b # ys) e"
    by (auto simp add: tiles_append)
  from tb have ub: "unat b = m"
    and ty: "tiles h (m + 32 + unat (size_blk (h b))) ys e" by auto
  from tiles_le [OF ty] have le: "m + 32 + unat (size_blk (h b)) \<le> e" .
  have un: "unat n = unat b + 32 + unat need"
    unfolding n using need le e ub by (intro unat_add3) simp
  have xs_lt: "unat x + 48 \<le> unat b" if "x \<in> set xs" for x
    using tiles_mem [OF tx that] ub by simp
  have ys_ge: "unat b + 32 + unat (size_blk (h b)) \<le> unat y" if "y \<in> set ys" for y
    using tiles_mem [OF ty that] ub by simp
  have n_xs: "n \<notin> set xs" using xs_lt un by fastforce
  have n_ys: "n \<notin> set ys" using ys_ge un need by fastforce
  have b_xs: "b \<notin> set xs" using xs_lt by fastforce
  have b_ys: "b \<notin> set ys" using ys_ge by fastforce
  have n_b: "n \<noteq> b" using un by auto
  have n_0: "n \<noteq> 0" using un by auto
  from p have px: "path h p xs b" and b0: "b \<noteq> 0" and py: "path h (next_blk (h b)) ys 0"
    by (auto simp add: path_append)
  have y: "next_blk (h b) = (case ys of [] \<Rightarrow> 0 | c # _ \<Rightarrow> c)"
    using py by (cases ys) auto
  have y_in: "next_blk (h b) \<in> set ys" if "next_blk (h b) \<noteq> 0"
    using that y by (cases ys) auto
  have "path h' p xs b"
    using px b_xs n_xs by (subst path_cong [where h = h]) (auto simp add: nx)
  moreover have "path h' (next_blk (h b)) ys 0"
    using py b_ys n_ys by (subst path_cong [where h = h]) (auto simp add: nx)
  ultimately have P: "path h' p (xs @ b # n # ys) 0"
    using b0 n_0 n_b by (auto simp add: path_append nx)
  have tx': "tiles h' a xs m"
    using tx b_xs n_xs by (subst tiles_cong [where h = h]) (auto simp add: sz)
  have ty': "tiles h' (m + 32 + unat (size_blk (h b))) ys e"
    using ty b_ys n_ys by (subst tiles_cong [where h = h]) (auto simp add: sz)
  have "unat (size_blk (h b) - need - 32) = unat (size_blk (h b)) - unat need - 32"
    using need by (intro unat_sub2) simp
  then have s2: "unat (size_blk (h' n)) = unat (size_blk (h b)) - unat need - 32"
    using n_b by (simp add: sz)
  have s1: "unat (size_blk (h' b)) = unat need" by (simp add: sz)
  have a1: "m + 32 + unat (size_blk (h' b)) = unat n" using s1 un ub by simp
  have a2: "unat n + 32 + unat (size_blk (h' n)) = m + 32 + unat (size_blk (h b))"
    using s2 un ub need by simp
  have g1: "16 \<le> unat (size_blk (h' b))" "16 \<le> unat (size_blk (h' n))"
    using s1 s2 need by simp_all
  have "tiles h' (unat n) (n # ys) e" using ty' g1 by (simp add: a2)
  then have "tiles h' m (b # n # ys) e" using ub g1 by (simp add: a1)
  with tx' have T: "tiles h' a (xs @ b # n # ys) e"
    by (auto simp add: tiles_append)
  from bl have bx: "back_links h q xs" and bb: "prev_blk (h b) = last (q # xs)"
    and bys: "back_links h b ys"
    by (auto simp add: back_links_append)
  have "back_links h' q xs"
  proof (subst back_links_cong [where h = h])
    fix x assume x: "x \<in> set xs"
    then have "x \<noteq> n" using n_xs by auto
    moreover have "x \<noteq> next_blk (h b)" if "next_blk (h b) \<noteq> 0"
      using y_in [OF that] ys_ge xs_lt [OF x] by fastforce
    ultimately show "prev_blk (h' x) = prev_blk (h x)" by (auto simp add: pv)
  qed (rule bx)
  moreover have "prev_blk (h' b) = last (q # xs)"
    using bb n_b b_ys y_in by (auto simp add: pv)
  moreover have "prev_blk (h' n) = b"
    using n_ys y_in by (auto simp add: pv)
  moreover have "back_links h' n ys"
  proof (cases ys)
    case Nil
    then show ?thesis by simp
  next
    case (Cons c cs)
    with y have yc: "next_blk (h b) = c" by simp
    from py Cons have c0: "c \<noteq> 0" by auto
    from tiles_distinct [OF ty] Cons have c_cs: "c \<notin> set cs" by auto
    from bys Cons have bcs: "back_links h c cs" by auto
    have "back_links h' c cs"
      using bcs c_cs n_ys Cons by (subst back_links_cong [where h = h]) (auto simp add: pv yc)
    then show ?thesis using Cons yc c0 by (auto simp add: pv)
  qed
  ultimately have B: "back_links h' q (xs @ b # n # ys)"
    by (auto simp add: back_links_append)
  from P T B show ?thesis by blast
qed

lemma unat_add_size3:
  fixes u v :: size_t
  assumes "unat u + 32 + unat v < 2 ^ 64"
  shows "unat (u + (32 + v)) = unat u + 32 + unat v"
  using assms by (simp add: unat_word_ariths)

lemma merge_struct:
  fixes h h' :: "ptr \<Rightarrow> MemoryBlock"
  assumes p: "path h p (xs @ a # c # ys) 0"
    and t: "tiles h a0 (xs @ a # c # ys) e"
    and bl: "back_links h q (xs @ a # c # ys)"
    and e: "e < 2 ^ 64"
    and nx: "\<And>x. next_blk (h' x) = (if x = a then next_blk (h c) else next_blk (h x))"
    and sz: "\<And>x. size_blk (h' x) =
        (if x = a then size_blk (h a) + (32 + size_blk (h c)) else size_blk (h x))"
    and pv: "\<And>x. prev_blk (h' x) =
        (if x = next_blk (h c) \<and> next_blk (h c) \<noteq> 0 then a else prev_blk (h x))"
  shows "path h' p (xs @ a # ys) 0 \<and> tiles h' a0 (xs @ a # ys) e
       \<and> back_links h' q (xs @ a # ys)"
proof -
  from t obtain m where tx: "tiles h a0 xs m" and ta: "tiles h m (a # c # ys) e"
    by (auto simp add: tiles_append)
  define m2 where "m2 = m + 32 + unat (size_blk (h a)) + 32 + unat (size_blk (h c))"
  from ta have ua: "unat a = m" and ga: "16 \<le> unat (size_blk (h a))"
    and uc: "unat c = m + 32 + unat (size_blk (h a))"
    and ty: "tiles h m2 ys e" by (auto simp add: m2_def)
  from tiles_le [OF ty] have le: "m2 \<le> e" .
  have xs_lt: "unat x + 48 \<le> unat a" if "x \<in> set xs" for x
    using tiles_mem [OF tx that] ua by simp
  have ys_ge: "m2 \<le> unat y" if "y \<in> set ys" for y
    using tiles_mem [OF ty that] by simp
  have a_xs: "a \<notin> set xs" using xs_lt by fastforce
  have a_ys: "a \<notin> set ys" using ys_ge ua by (fastforce simp add: m2_def)
  from p have px: "path h p xs a" and a0: "a \<noteq> 0" and py: "path h (next_blk (h c)) ys 0"
    by (auto simp add: path_append)
  have y: "next_blk (h c) = (case ys of [] \<Rightarrow> 0 | d # _ \<Rightarrow> d)"
    using py by (cases ys) auto
  have y_in: "next_blk (h c) \<in> set ys" if "next_blk (h c) \<noteq> 0"
    using that y by (cases ys) auto
  have "path h' p xs a"
    using px a_xs by (subst path_cong [where h = h]) (auto simp add: nx)
  moreover have "path h' (next_blk (h c)) ys 0"
    using py a_ys by (subst path_cong [where h = h]) (auto simp add: nx)
  ultimately have P: "path h' p (xs @ a # ys) 0"
    using a0 by (auto simp add: path_append nx)
  have tx': "tiles h' a0 xs m"
    using tx a_xs by (subst tiles_cong [where h = h]) (auto simp add: sz)
  have ty': "tiles h' m2 ys e"
    using ty a_ys by (subst tiles_cong [where h = h]) (auto simp add: sz)
  have "unat (size_blk (h a) + (32 + size_blk (h c)))
      = unat (size_blk (h a)) + 32 + unat (size_blk (h c))"
    using le e by (intro unat_add_size3) (simp add: m2_def)
  then have s1: "unat (size_blk (h' a)) = unat (size_blk (h a)) + 32 + unat (size_blk (h c))"
    by (simp add: sz)
  have a1: "m + 32 + unat (size_blk (h' a)) = m2" using s1 by (simp add: m2_def)
  have g1: "16 \<le> unat (size_blk (h' a))" using s1 ga by simp
  have "tiles h' m (a # ys) e" using ty' g1 ua by (simp add: a1)
  with tx' have T: "tiles h' a0 (xs @ a # ys) e"
    by (auto simp add: tiles_append)
  from bl have bx: "back_links h q xs" and ba: "prev_blk (h a) = last (q # xs)"
    and bys: "back_links h c ys"
    by (auto simp add: back_links_append)
  have "back_links h' q xs"
  proof (subst back_links_cong [where h = h])
    fix x assume x: "x \<in> set xs"
    have "x \<noteq> next_blk (h c)" if "next_blk (h c) \<noteq> 0"
      using ys_ge [OF y_in [OF that]] xs_lt [OF x] ua by (fastforce simp add: m2_def)
    then show "prev_blk (h' x) = prev_blk (h x)" by (auto simp add: pv)
  qed (rule bx)
  moreover have "prev_blk (h' a) = last (q # xs)"
    using ba a_ys y_in by (auto simp add: pv)
  moreover have "back_links h' a ys"
  proof (cases ys)
    case Nil
    then show ?thesis by simp
  next
    case (Cons d ds)
    with y have yd: "next_blk (h c) = d" by simp
    from py Cons have d0: "d \<noteq> 0" by auto
    from tiles_distinct [OF ty] Cons have d_ds: "d \<notin> set ds" by auto
    from bys Cons have bds: "back_links h d ds" by auto
    have "back_links h' d ds"
      using bds d_ds Cons by (subst back_links_cong [where h = h]) (auto simp add: pv yd)
    then show ?thesis using Cons yd d0 by (auto simp add: pv)
  qed
  ultimately have B: "back_links h' q (xs @ a # ys)"
    by (auto simp add: back_links_append)
  from P T B show ?thesis by blast
qed

lemma splitBlock_split:
  assumes "\<not> size_blk (blocks s b) - need < sizeof_MemoryBlock + MIN_BLOCK_SIZE"
  shows "\<exists>H M. snd (splitBlock s b need) =
     s\<lparr>blocks := H, bytes := M,
       stats := (stats s)\<lparr>block_count := block_count (stats s) + 1,
                           free_block_count := free_block_count (stats s) + 1,
                           split_count := split_count (stats s) + 1\<rparr>\<rparr>"
  using assms by (simp add: splitBlock_def Let_def state_writes del: ex_simps) blast

lemma splitBlock_frame:
  "heap_start (snd (splitBlock s b need)) = heap_start s"
  "heap_end (snd (splitBlock s b need)) = heap_end s"
  "heap_size (snd (splitBlock s b need)) = heap_size s"
  "free_list (snd (splitBlock s b need)) = free_list s"
  "owns_memory (snd (splitBlock s b need)) = owns_memory s"
proof -
  have "heap_start (snd (splitBlock s b need)) = heap_start s
    \<and> heap_end (snd (splitBlock s b need)) = heap_end s
    \<and> heap_size (snd (splitBlock s b need)) = heap_size s
    \<and> free_list (snd (splitBlock s b need)) = free_list s
    \<and> owns_memory (snd (splitBlock s b need)) = owns_memory s"
  proof (cases "size_blk (blocks s b) - need < sizeof_MemoryBlock + MIN_BLOCK_SIZE")
    case True
    then show ?thesis by (simp add: splitBlock_no_split)
  next
    case False
    from splitBlock_split [OF False] obtain H M where
      "snd (splitBlock s b need) =
        s\<lparr>blocks := H, bytes := M,
          stats := (stats s)\<lparr>block_count := block_count (stats s) + 1,
                           free_block_count := free_block_count (stats s) + 1,
                           split_count := split_count (stats s) + 1\<rparr>\<rparr>" by blast
    then show ?thesis by simp
  qed
  then show "heap_start (snd (splitBlock s b need)) = heap_start s"
    "heap_end (snd (splitBlock s b need)) = heap_end s"
    "heap_size (snd (splitBlock s b need)) = heap_size s"
    "free_list (snd (splitBlock s b need)) = free_list s"
    "owns_memory (snd (splitBlock s b need)) = owns_memory s" by simp_all
qed

lemma splitBlock_stats:
  "stats (snd (splitBlock s b need)) =
     (if will_split (blocks s) b need
      then (stats s)\<lparr>block_count := block_count (stats s) + 1,
                      free_block_count := free_block_count (stats s) + 1,
                      split_count := split_count (stats s) + 1\<rparr>
      else stats s)"
proof (cases "will_split (blocks s) b need")
  case True
  then have "\<not> size_blk (blocks s b) - need < sizeof_MemoryBlock + MIN_BLOCK_SIZE"
    by (simp add: will_split_def)
  from splitBlock_split [OF this] obtain H M where
      "snd (splitBlock s b need) =
        s\<lparr>blocks := H, bytes := M,
          stats := (stats s)\<lparr>block_count := block_count (stats s) + 1,
                           free_block_count := free_block_count (stats s) + 1,
                           split_count := split_count (stats s) + 1\<rparr>\<rparr>" by blast
  with True show ?thesis by simp
next
  case False
  then show ?thesis by (simp add: will_split_def splitBlock_no_split)
qed

lemma take_block_frame:
  "heap_start (take_block s b need) = heap_start s"
  "heap_end (take_block s b need) = heap_end s"
  "heap_size (take_block s b need) = heap_size s"
  "free_list (take_block s b need) = free_list s"
  "owns_memory (take_block s b need) = owns_memory s"
  by (simp_all add: take_block_def Let_def splitBlock_frame)

lemma take_block_stats:
  "stats (take_block s b need) =
     (if will_split (blocks s) b need
      then (stats s)\<lparr>block_count := block_count (stats s) + 1,
                      free_block_count := free_block_count (stats s) + 1,
                      split_count := split_count (stats s) + 1\<rparr>
      else stats s)"
  by (simp add: take_block_def Let_def splitBlock_stats)

lemma take_block_fields_split:
  assumes ws: "will_split (blocks s) b need"
    and n: "n = b + sizeof_MemoryBlock + need"
  shows
    "next_blk (blocks (take_block s b need) x) =
       (if x = b then n else if x = n then next_blk (blocks s b) else next_blk (blocks s x))"
    "size_blk (blocks (take_block s b need) x) = (if x = b then need else if x = n
        then size_blk (blocks s b) - need - sizeof_MemoryBlock else size_blk (blocks s x))"
    "prev_blk (blocks (take_block s b need) x) =
       (if x = next_blk (blocks s b) \<and> next_blk (blocks s b) \<noteq> 0 then n
        else if x = n then b else prev_blk (blocks s x))"
    "is_free (blocks (take_block s b need) x) =
       (if x = b then False else if x = n then True else is_free (blocks s x))"
proof -
  have ns: "\<not> size_blk (blocks s b) - need < sizeof_MemoryBlock + MIN_BLOCK_SIZE"
    using ws by (simp add: will_split_def)
  note sf = splitBlock_fields [OF ns, folded n]
  have h': "blocks (take_block s b need) =
      (blocks (snd (splitBlock s b need)))
        (b := (blocks (snd (splitBlock s b need)) b)\<lparr>is_free := False\<rparr>)"
    by (simp add: take_block_def Let_def set_is_free_def)
  have "next_blk (blocks (take_block s b need) x) = next_blk (blocks (snd (splitBlock s b need)) x)"
    by (simp add: h')
  then show "next_blk (blocks (take_block s b need) x) =
       (if x = b then n else if x = n then next_blk (blocks s b) else next_blk (blocks s x))"
    by (simp only: sf)
  have "size_blk (blocks (take_block s b need) x) = size_blk (blocks (snd (splitBlock s b need)) x)"
    by (simp add: h')
  then show "size_blk (blocks (take_block s b need) x) = (if x = b then need else if x = n
        then size_blk (blocks s b) - need - sizeof_MemoryBlock else size_blk (blocks s x))"
    by (simp only: sf)
  have "prev_blk (blocks (take_block s b need) x) = prev_blk (blocks (snd (splitBlock s b need)) x)"
    by (simp add: h')
  then show "prev_blk (blocks (take_block s b need) x) =
       (if x = next_blk (blocks s b) \<and> next_blk (blocks s b) \<noteq> 0 then n
        else if x = n then b else prev_blk (blocks s x))"
    by (simp only: sf)
  have "is_free (blocks (take_block s b need) x) =
      (if x = b then False else is_free (blocks (snd (splitBlock s b need)) x))"
    by (simp add: h')
  then show "is_free (blocks (take_block s b need) x) =
       (if x = b then False else if x = n then True else is_free (blocks s x))"
    by (simp only: sf)
qed

lemma take_block_fields_whole:
  assumes "\<not> will_split (blocks s) b need"
  shows "blocks (take_block s b need) = set_is_free (blocks s) b False"
  using assms by (simp add: take_block_def will_split_def splitBlock_no_split)

lemma well_formedD:
  assumes "well_formed s bs"
  shows "path (blocks s) (heap_start s) bs 0"
    and "tiles (blocks s) (unat (heap_start s)) bs (unat (heap_end s))"
    and "back_links (blocks s) 0 bs"
    and "unat (heap_end s) < 2 ^ 64"
    and "free_list s = heap_start s"
    and "valid_region s"
    and "bs \<noteq> []"
  using assms unsigned_less [of "heap_end s"]
  by (auto simp add: well_formed_def chain_path)

lemma well_formedI:
  assumes "path (blocks s) (heap_start s) bs 0"
    and "tiles (blocks s) (unat (heap_start s)) bs (unat (heap_end s))"
    and "back_links (blocks s) 0 bs"
    and "free_list s = heap_start s"
    and "valid_region s"
    and "bs \<noteq> []"
  shows "well_formed s bs"
  using assms by (simp add: well_formed_def chain_path)

lemma take_block_valid_region: "valid_region (take_block s b need) = valid_region s"
  by (simp add: valid_region_def take_block_frame)

lemma take_block_wf:
  assumes wf: "well_formed s (xs @ b # ys)"
    and fit: "fits (blocks s) need b"
    and need: "16 \<le> unat need"
  shows "well_formed (take_block s b need) (chain_after_take (blocks s) need xs b ys)"
proof (cases "will_split (blocks s) b need")
  case True
  note wfd = well_formedD [OF wf]
  let ?h = "blocks s"
  have le: "need \<le> size_blk (?h b)" using fit by (simp add: fits_def)
  then have "unat (size_blk (?h b) - need) = unat (size_blk (?h b)) - unat need"
    by (rule unat_sub)
  moreover have "48 \<le> unat (size_blk (?h b) - need)"
    using True by (simp add: will_split_def alloc_consts word_less_nat_alt)
  ultimately have room: "unat need + 48 \<le> unat (size_blk (?h b))"
    using le by (simp add: word_le_nat_alt)
  note f = take_block_fields_split [OF True, unfolded sizeof_MemoryBlock_def]
  have "path (blocks (take_block s b need)) (heap_start s) (xs @ b # (b + 32 + need) # ys) 0
      \<and> tiles (blocks (take_block s b need)) (unat (heap_start s))
           (xs @ b # (b + 32 + need) # ys) (unat (heap_end s))
      \<and> back_links (blocks (take_block s b need)) 0 (xs @ b # (b + 32 + need) # ys)"
    by (rule split_struct [OF wfd(1) wfd(2) wfd(3) wfd(4) need room refl])
      (simp_all only: f)
  then show ?thesis
    using True wfd(5,6)
    by (intro well_formedI)
      (simp_all add: chain_after_take_def take_block_frame sizeof_MemoryBlock_def
        take_block_valid_region)
next
  case False
  note wfd = well_formedD [OF wf]
  have h: "blocks (take_block s b need) = set_is_free (blocks s) b False"
    by (rule take_block_fields_whole [OF False])
  have "path (blocks (take_block s b need)) (heap_start s) (xs @ b # ys) 0"
    unfolding h using wfd(1) by (subst path_cong [where h = "blocks s"]) (simp_all add: set_is_free_def)
  moreover have "tiles (blocks (take_block s b need)) (unat (heap_start s)) (xs @ b # ys)
      (unat (heap_end s))"
    unfolding h using wfd(2) by (subst tiles_cong [where h = "blocks s"]) (simp_all add: set_is_free_def)
  moreover have "back_links (blocks (take_block s b need)) 0 (xs @ b # ys)"
    unfolding h using wfd(3)
    by (subst back_links_cong [where h = "blocks s"]) (simp_all add: set_is_free_def)
  ultimately show ?thesis
    using False wfd(5,6)
    by (intro well_formedI)
      (simp_all add: chain_after_take_def take_block_frame take_block_valid_region)
qed

lemma find_first:
  "P b \<Longrightarrow> \<forall>x \<in> set xs. \<not> P x \<Longrightarrow> find P (xs @ b # ys) = Some b"
  by (induction xs) auto

lemma find_SomeD:
  "find P bs = Some b \<Longrightarrow> \<exists>xs ys. bs = xs @ b # ys \<and> P b \<and> (\<forall>x \<in> set xs. \<not> P x)"
proof (induction bs)
  case Nil
  then show ?case by simp
next
  case (Cons c bs)
  show ?case
  proof (cases "P c")
    case True
    with Cons.prems have "c # bs = [] @ b # bs \<and> P b \<and> (\<forall>x \<in> set []. \<not> P x)" by simp
    then show ?thesis by blast
  next
    case False
    with Cons obtain xs ys where "bs = xs @ b # ys \<and> P b \<and> (\<forall>x \<in> set xs. \<not> P x)" by auto
    with False have "c # bs = (c # xs) @ b # ys \<and> P b \<and> (\<forall>x \<in> set (c # xs). \<not> P x)" by simp
    then show ?thesis by blast
  qed
qed

lemma need_ge_16: "16 \<le> unat (max (alignSize sz) MIN_BLOCK_SIZE)"
proof -
  have "MIN_BLOCK_SIZE \<le> max (alignSize sz) MIN_BLOCK_SIZE" by simp
  then show ?thesis by (simp only: word_le_nat_alt unat_consts)
qed

lemma well_formed_chain: "well_formed s bs \<Longrightarrow> chain (blocks s) (free_list s) bs"
  unfolding well_formed_def by blast

lemma my_malloc_wf:
  assumes wf: "well_formed s (xs @ b # ys)" and sz: "sz \<noteq> 0"
    and need: "need = max (alignSize sz) MIN_BLOCK_SIZE"
    and fit: "fits (blocks s) need b" and nofit: "\<forall>x \<in> set xs. \<not> fits (blocks s) need x"
  shows "my_malloc s sz =
     Some (getData b,
           (take_block s b need)\<lparr>stats := malloc_stats (take_block s b need) b
              (chain_after_take (blocks s) need xs b ys)\<rparr>, [])"
proof -
  let ?t = "take_block s b need"
  let ?bs' = "chain_after_take (blocks s) need xs b ys"
  from wf have ch: "chain (blocks s) (free_list s) (xs @ b # ys)"
    by (rule well_formed_chain)
  then have b0: "b \<noteq> 0" by (auto simp add: chain_path path_append)
  have "find (fits (blocks s) need) (xs @ b # ys) = Some b"
    using fit nofit by (rule find_first)
  then have ff: "findFreeBlock s need = Some b"
    using findFreeBlock_loop_chain [OF ch] by (simp add: findFreeBlock_def)
  have "16 \<le> unat need" unfolding need by (rule need_ge_16)
  from take_block_wf [OF wf fit this] have wf': "well_formed ?t ?bs'" .
  then have ch': "chain (blocks ?t) (free_list ?t) ?bs'" by (rule well_formed_chain)
  have "updateStatsAfterAlloc ?t (size_blk (blocks ?t b))
      = Some (?t\<lparr>stats := malloc_stats ?t b ?bs'\<rparr>)"
    using recalculate_loop_chain [OF ch', of 0 0]
    by (simp add: updateStatsAfterAlloc_def recalculateBlockCounts_def malloc_stats_def)
  then show ?thesis
    using sz b0 ff
    by (simp add: my_malloc_def Let_def need_max need [symmetric] take_block_def)
qed

lemma coalesce_next_eq:
  "coalesce_next s b =
     (if next_blk (blocks s b) \<noteq> 0 \<and> is_free (blocks s (next_blk (blocks s b)))
      then merge_blocks s b (next_blk (blocks s b)) else s)"
  by (simp add: coalesce_next_def merge_blocks_def merge_headers_def Let_def)

lemma coalesce_prev_eq:
  "snd (coalesce_prev s b) =
     (if prev_blk (blocks s b) \<noteq> 0 \<and> is_free (blocks s (prev_blk (blocks s b)))
      then merge_blocks s (prev_blk (blocks s b)) b else s)"
  by (simp add: coalesce_prev_def merge_blocks_def merge_headers_def Let_def)

lemma release_frame:
  "heap_start (release s b) = heap_start s"
  "heap_end (release s b) = heap_end s"
  "heap_size (release s b) = heap_size s"
  "free_list (release s b) = free_list s"
  "owns_memory (release s b) = owns_memory s"
  "blocks (release s b) = set_is_free (blocks s) b True"
  "stats (release s b) =
     (stats s)\<lparr>used_memory := used_memory (stats s) - size_blk (blocks s b),
               free_memory := free_memory (stats s) + size_blk (blocks s b),
               total_frees := total_frees (stats s) + 1,
               free_block_count := free_block_count (stats s) + 1\<rparr>"
  by (simp_all add: release_def updateStatsAfterFree_def Let_def)

lemma merge_blocks_frame:
  "heap_start (merge_blocks s a c) = heap_start s"
  "heap_end (merge_blocks s a c) = heap_end s"
  "heap_size (merge_blocks s a c) = heap_size s"
  "free_list (merge_blocks s a c) = free_list s"
  "owns_memory (merge_blocks s a c) = owns_memory s"
  "blocks (merge_blocks s a c) = merge_headers (blocks s) a c"
  "stats (merge_blocks s a c) =
     (stats s)\<lparr>block_count := block_count (stats s) - 1,
               free_block_count := free_block_count (stats s) - 1,
               coalesce_count := coalesce_count (stats s) + 1\<rparr>"
  by (simp_all add: merge_blocks_def merge_headers_def Let_def)

lemma release_wf:
  assumes "well_formed s bs"
  shows "well_formed (release s b) bs"
proof -
  note wfd = well_formedD [OF assms]
  have "path (set_is_free (blocks s) b True) (heap_start s) bs 0"
    using wfd(1) by (subst path_cong [where h = "blocks s"]) (simp_all add: set_is_free_def)
  moreover have "tiles (set_is_free (blocks s) b True) (unat (heap_start s)) bs (unat (heap_end s))"
    using wfd(2) by (subst tiles_cong [where h = "blocks s"]) (simp_all add: set_is_free_def)
  moreover have "back_links (set_is_free (blocks s) b True) 0 bs"
    using wfd(3) by (subst back_links_cong [where h = "blocks s"]) (simp_all add: set_is_free_def)
  moreover have "valid_region (release s b)"
    using wfd(6) by (simp add: valid_region_def release_frame)
  ultimately show ?thesis
    using wfd(5,7) by (intro well_formedI) (simp_all add: release_frame)
qed

lemma merge_blocks_wf:
  assumes "well_formed s (xs @ a # c # ys)"
  shows "well_formed (merge_blocks s a c) (xs @ a # ys)"
proof -
  note wfd = well_formedD [OF assms]
  note f = merge_headers_fields [unfolded sizeof_MemoryBlock_def]
  have "path (merge_headers (blocks s) a c) (heap_start s) (xs @ a # ys) 0
      \<and> tiles (merge_headers (blocks s) a c) (unat (heap_start s)) (xs @ a # ys)
           (unat (heap_end s))
      \<and> back_links (merge_headers (blocks s) a c) 0 (xs @ a # ys)"
    by (rule merge_struct [OF wfd(1) wfd(2) wfd(3) wfd(4)]) (simp_all only: f)
  moreover have "valid_region (merge_blocks s a c)"
    using wfd(6) by (simp add: valid_region_def merge_blocks_frame)
  ultimately show ?thesis
    using wfd(5) by (intro well_formedI) (simp_all add: merge_blocks_frame)
qed

lemma well_formed_next:
  assumes "well_formed s (xs @ b # ys)"
  shows "next_blk (blocks s b) = (case ys of [] \<Rightarrow> 0 | c # _ \<Rightarrow> c)" and "0 \<notin> set (xs @ b # ys)"
proof -
  note wfd = well_formedD [OF assms]
  from wfd(1) have "path (blocks s) b (b # ys) 0" by (auto simp add: path_append)
  then show "next_blk (blocks s b) = (case ys of [] \<Rightarrow> 0 | c # _ \<Rightarrow> c)" by (rule path_next)
  have "path h p bs q \<Longrightarrow> 0 \<notin> set bs" for h p bs q
    by (induction bs arbitrary: p) auto
  from this [OF wfd(1)] show "0 \<notin> set (xs @ b # ys)" .
qed

lemma well_formed_prev:
  assumes "well_formed s (xs @ b # ys)"
  shows "prev_blk (blocks s b) = last (0 # xs)"
  using well_formedD(3) [OF assms] by (auto simp add: back_links_append)

lemma well_formed_distinct: "well_formed s bs \<Longrightarrow> distinct bs"
  using tiles_distinct well_formedD(2) by blast

lemma unat_add_32:
  fixes b :: ptr
  assumes "unat b + 32 < 2 ^ 64"
  shows "unat (b + 32) = unat b + 32"
  using assms by (simp add: unat_word_ariths)

lemma valid_payload:
  assumes wf: "well_formed s bs" and b: "b \<in> set bs"
  shows "isValidPointer s (getData b)" and "getData b \<noteq> 0" and "fromData (getData b) = b"
proof -
  note wfd = well_formedD [OF wf]
  from tiles_mem [OF wfd(2) b]
  have 1: "unat (heap_start s) \<le> unat b"
    and 2: "unat b + 32 + unat (size_blk (blocks s b)) \<le> unat (heap_end s)"
    and 3: "16 \<le> unat (size_blk (blocks s b))" by simp_all
  have ub: "unat (b + 32) = unat b + 32"
    using 2 wfd(4) by (intro unat_add_32) simp
  have us: "unat (heap_start s + 32) = unat (heap_start s) + 32"
    using 1 2 wfd(4) by (intro unat_add_32) simp
  show "isValidPointer s (getData b)"
    using 1 2 3 ub us
    by (simp add: isValidPointer_def getData_def sizeof_MemoryBlock_def
        word_le_nat_alt word_less_nat_alt)
  show "getData b \<noteq> 0"
    using ub by (auto simp add: getData_def sizeof_MemoryBlock_def)
  show "fromData (getData b) = b"
    by (simp add: getData_def fromData_def)
qed

lemma my_free_release:
  assumes wf: "well_formed s bs" and b: "b \<in> set bs" and live: "\<not> is_free (blocks s b)"
  shows "my_free s (getData b) = (snd (coalesce_prev (coalesce_next (release s b) b) b), [])"
  using valid_payload [OF wf b] live
  by (simp add: my_free_def Let_def release_def coalesceBlock_def)

lemma set_is_free_fields:
  "next_blk (set_is_free h b v x) = next_blk (h x)"
  "prev_blk (set_is_free h b v x) = prev_blk (h x)"
  "size_blk (set_is_free h b v x) = size_blk (h x)"
  "is_free (set_is_free h b v x) = (if x = b then v else is_free (h x))"
  by (simp_all add: set_is_free_def)

lemma coalesce_next_release:
  assumes wf: "well_formed s (xs @ b # ys)"
  shows "coalesce_next (release s b) b = merge_next s (release s b) b ys"
    and "well_formed (merge_next s (release s b) b ys) (xs @ b # rest_after_free (blocks s) ys)"
proof -
  have wf2: "well_formed (release s b) (xs @ b # ys)" using wf by (rule release_wf)
  note nx = well_formed_next [OF wf2]
  show "coalesce_next (release s b) b = merge_next s (release s b) b ys"
  proof (cases ys)
    case Nil
    with nx(1) show ?thesis by (simp add: coalesce_next_eq merge_next_def)
  next
    case (Cons c cs)
    with nx have c: "next_blk (blocks (release s b) b) = c" and c0: "c \<noteq> 0" by auto
    from well_formed_distinct [OF wf] Cons have "c \<noteq> b" by auto
    then have "is_free (blocks (release s b) c) = is_free (blocks s c)"
      by (simp add: release_frame set_is_free_fields)
    then show ?thesis
      using Cons c0 by (simp add: coalesce_next_eq c merge_next_def)
  qed
  show "well_formed (merge_next s (release s b) b ys) (xs @ b # rest_after_free (blocks s) ys)"
  proof (cases ys)
    case Nil
    with wf2 show ?thesis by (simp add: merge_next_def rest_after_free_def)
  next
    case (Cons c cs)
    show ?thesis
    proof (cases "is_free (blocks s c)")
      case True
      from wf2 Cons have "well_formed (merge_blocks (release s b) b c) (xs @ b # cs)"
        by (intro merge_blocks_wf) simp
      with True Cons show ?thesis by (simp add: merge_next_def rest_after_free_def)
    next
      case False
      with wf2 Cons show ?thesis by (simp add: merge_next_def rest_after_free_def)
    qed
  qed
qed

lemma merge_next_is_free:
  "is_free (blocks (merge_next s (release s b) b ys) x) = (if x = b then True else is_free (blocks s x))"
  by (cases ys)
    (simp_all add: merge_next_def merge_blocks_frame merge_headers_fields release_frame
      set_is_free_fields)

lemma coalesce_prev_merge:
  assumes wf3: "well_formed s3 (xs @ b # zs)"
    and fr: "\<And>x. x \<noteq> b \<Longrightarrow> is_free (blocks s3 x) = is_free (blocks s x)"
  shows "snd (coalesce_prev s3 b) = merge_prev s s3 xs b"
    and "well_formed (merge_prev s s3 xs b)
           (if xs \<noteq> [] \<and> is_free (blocks s (last xs)) then xs @ zs else xs @ b # zs)"
proof -
  note pv = well_formed_prev [OF wf3]
  note nz = well_formed_next(2) [OF wf3]
  note ds = well_formed_distinct [OF wf3]
  show "snd (coalesce_prev s3 b) = merge_prev s s3 xs b"
  proof (cases xs rule: rev_cases)
    case Nil
    with pv show ?thesis by (simp add: coalesce_prev_eq merge_prev_def)
  next
    case (snoc us a)
    with pv nz have a: "prev_blk (blocks s3 b) = a" and a0: "a \<noteq> 0" by auto
    from ds snoc have "a \<noteq> b" by auto
    from fr [OF this] show ?thesis
      using snoc a0 by (simp add: coalesce_prev_eq a merge_prev_def)
  qed
  show "well_formed (merge_prev s s3 xs b)
           (if xs \<noteq> [] \<and> is_free (blocks s (last xs)) then xs @ zs else xs @ b # zs)"
  proof (cases xs rule: rev_cases)
    case Nil
    with wf3 show ?thesis by (simp add: merge_prev_def)
  next
    case (snoc us a)
    show ?thesis
    proof (cases "is_free (blocks s a)")
      case True
      from wf3 snoc have "well_formed (merge_blocks s3 a b) (us @ a # zs)"
        by (intro merge_blocks_wf) simp
      with True snoc show ?thesis by (simp add: merge_prev_def)
    next
      case False
      with wf3 snoc show ?thesis by (simp add: merge_prev_def)
    qed
  qed
qed

lemma my_free_wf:
  assumes wf: "well_formed s (xs @ b # ys)" and live: "\<not> is_free (blocks s b)"
  shows "my_free s (getData b) = (free_state s xs b ys, [])"
    and "well_formed (free_state s xs b ys) (chain_after_free (blocks s) xs b ys)"
proof -
  note cn = coalesce_next_release [OF wf]
  have fr: "x \<noteq> b \<Longrightarrow> is_free (blocks (merge_next s (release s b) b ys) x) = is_free (blocks s x)"
    for x by (simp add: merge_next_is_free)
  note cp = coalesce_prev_merge [OF cn(2) fr]
  have "b \<in> set (xs @ b # ys)" by simp
  from my_free_release [OF wf this live]
  show "my_free s (getData b) = (free_state s xs b ys, [])"
    by (simp add: cn(1) cp(1) free_state_def)
  from cp(2) show "well_formed (free_state s xs b ys) (chain_after_free (blocks s) xs b ys)"
    by (simp add: free_state_def chain_after_free_def)
qed

lemma take_block_not_free: "\<not> is_free (blocks (take_block s b need) b)"
proof (cases "will_split (blocks s) b need")
  case True
  from take_block_fields_split(4) [OF True refl, of b] show ?thesis by simp
next
  case False
  then show ?thesis by (simp add: take_block_fields_whole set_is_free_fields)
qed

lemma my_malloc_block_size:
  assumes wf: "well_formed s bs" and m: "my_malloc s sz = Some (p, s', d)" and p: "p \<noteq> 0"
  shows "max (alignSize sz) MIN_BLOCK_SIZE \<le> size_blk (blocks s' (fromData p))"
proof -
  let ?need = "max (alignSize sz) MIN_BLOCK_SIZE"
  from m p have sz: "sz \<noteq> 0" by (auto simp add: my_malloc_def)
  show ?thesis
  proof (cases "find (fits (blocks s) ?need) bs")
    case None
    then have "\<forall>b \<in> set bs. \<not> fits (blocks s) ?need b" by (simp add: find_None_iff)
    from my_malloc_no_fit [OF well_formed_chain [OF wf] sz this] m p
    show ?thesis by simp
  next
    case (Some b)
    from find_SomeD [OF Some] obtain xs ys where
      bs: "bs = xs @ b # ys" and fit: "fits (blocks s) ?need b"
      and nofit: "\<forall>x \<in> set xs. \<not> fits (blocks s) ?need x" by blast
    from my_malloc_wf [OF wf [unfolded bs] sz refl fit nofit] m
    have p': "p = getData b" and s': "blocks s' = blocks (take_block s b ?need)" by simp_all
    have fd: "fromData p = b" unfolding p' by (simp add: getData_def fromData_def)
    show ?thesis
    proof (cases "will_split (blocks s) b ?need")
      case True
      from take_block_fields_split(2) [OF True refl, of b] show ?thesis
        unfolding fd s' by simp
    next
      case False
      from take_block_fields_whole [OF False] fit show ?thesis
        unfolding fd s' by (simp add: set_is_free_fields fits_def)
    qed
  qed
qed

lemma my_malloc_first_fit_aux:
  assumes wf: "well_formed s bs" and sz: "sz \<noteq> 0"
  shows "case find (fits (blocks s) (max (alignSize sz) MIN_BLOCK_SIZE)) bs of
           None \<Rightarrow> my_malloc s sz
                    = Some (0, s, [MallocOutOfMemory (max (alignSize sz) MIN_BLOCK_SIZE)])
         | Some b \<Rightarrow> (\<exists>s'. my_malloc s sz = Some (getData b, s', [])
                        \<and> \<not> is_free (blocks s' b))"
proof (cases "find (fits (blocks s) (max (alignSize sz) MIN_BLOCK_SIZE)) bs")
  case None
  then have "\<forall>b \<in> set bs. \<not> fits (blocks s) (max (alignSize sz) MIN_BLOCK_SIZE) b"
    by (simp add: find_None_iff)
  from my_malloc_no_fit [OF well_formed_chain [OF wf] sz this] None
  show ?thesis by simp
next
  case (Some b)
  let ?need = "max (alignSize sz) MIN_BLOCK_SIZE"
  from find_SomeD [OF Some] obtain xs ys where
    bs: "bs = xs @ b # ys" and fit: "fits (blocks s) ?need b"
    and nofit: "\<forall>x \<in> set xs. \<not> fits (blocks s) ?need x" by blast
  from my_malloc_wf [OF wf [unfolded bs] sz refl fit nofit] take_block_not_free [of s b ?need]
  have "\<exists>s'. my_malloc s sz = Some (getData b, s', []) \<and> \<not> is_free (blocks s' b)"
    by simp
  with Some show ?thesis by simp
qed

lemma fresh_engine_wf: "well_formed fresh_engine [4096]"
  by (simp add: well_formed_def valid_region_def fresh_engine_fields)
    (simp add: eval_defs hdr_writes alloc_consts)

text \<open>
  For a requested size up to \<open>SIZE_MAX - 7\<close> the search is the first fit of the
  specification: \<open>need\<close> is the size rounded up to a multiple of 8 and raised to 16,
  the block taken is the first of the chain that is free with at least \<open>need\<close> bytes,
  the pointer returned is 32 bytes past its header, and the block holds the requested
  size.
\<close>

lemma my_malloc_first_fit_in_range:
  assumes wf: "well_formed s bs" and sz: "sz \<noteq> 0" and r: "\<not> - 1 - 7 < sz"
  defines "need \<equiv> max (alignSize sz) MIN_BLOCK_SIZE"
  shows "unat need = max ((unat sz + 7) div 8 * 8) 16"
    and "case find (\<lambda>b. is_free (blocks s b) \<and> need \<le> size_blk (blocks s b)) bs of
           None \<Rightarrow> my_malloc s sz = Some (0, s, [MallocOutOfMemory need])
         | Some b \<Rightarrow> (\<exists>s'. my_malloc s sz = Some (b + 32, s', [])
                        \<and> \<not> is_free (blocks s' b) \<and> sz \<le> size_blk (blocks s' b))"
proof -
  have "unat (max (alignSize sz) MIN_BLOCK_SIZE) = max (unat (alignSize sz)) (unat MIN_BLOCK_SIZE)"
    by (simp add: max_def word_le_nat_alt)
  then show "unat need = max ((unat sz + 7) div 8 * 8) 16"
    unfolding need_def by (simp add: alignSize_rounds_up [OF r])
  have f: "(\<lambda>b. is_free (blocks s b) \<and> need \<le> size_blk (blocks s b)) = fits (blocks s) need"
    by (simp add: fits_def [abs_def])
  note aux = my_malloc_first_fit_aux [OF wf sz, folded need_def]
  show "case find (\<lambda>b. is_free (blocks s b) \<and> need \<le> size_blk (blocks s b)) bs of
           None \<Rightarrow> my_malloc s sz = Some (0, s, [MallocOutOfMemory need])
         | Some b \<Rightarrow> (\<exists>s'. my_malloc s sz = Some (b + 32, s', [])
                        \<and> \<not> is_free (blocks s' b) \<and> sz \<le> size_blk (blocks s' b))"
  proof (cases "find (fits (blocks s) need) bs")
    case None
    with aux show ?thesis unfolding f by simp
  next
    case (Some b)
    with aux obtain s' where m: "my_malloc s sz = Some (getData b, s', [])"
      and nf: "\<not> is_free (blocks s' b)" by auto
    from find_SomeD [OF Some] have "b \<in> set bs" by auto
    from valid_payload(2,3) [OF wf this] have p: "getData b \<noteq> 0" "fromData (getData b) = b" .
    have "sz \<le> alignSize sz" using r by (rule alignSize_ge)
    also have "\<dots> \<le> max (alignSize sz) MIN_BLOCK_SIZE" by simp
    also have "\<dots> \<le> size_blk (blocks s' (fromData (getData b)))"
      using wf m p(1) by (rule my_malloc_block_size)
    finally have "sz \<le> size_blk (blocks s' b)" by (simp only: p(2))
    with m nf Some show ?thesis
      unfolding f by (simp add: getData_def sizeof_MemoryBlock_def)
  qed
qed

text \<open>
  C3 fails on the code for a requested size in \<open>(SIZE_MAX - 7, SIZE_MAX]\<close>, where the
  rounding of \<open>alignSize\<close> wraps around. \<open>my_malloc(SIZE_MAX)\<close> on the fresh engine:
  the chain is the single free block at 4096, of 4064 bytes, which is less than the
  requested size, so no block of the chain has the requested size rounded up and C3
  demands the null pointer and the out-of-memory diagnostic. The code returns the
  payload address \<open>4128 = 4096 + 32\<close> of that block, cut down to 16 bytes and marked
  not free, and writes no diagnostic.
\<close>

theorem my_malloc_first_fit_overflow:
  "chain (blocks fresh_engine) (free_list fresh_engine) [4096]
   \<and> is_free (blocks fresh_engine 4096)
   \<and> size_blk (blocks fresh_engine 4096) = 4064 \<and> (4064 :: size_t) < - 1
   \<and> map_option (\<lambda>(p, s', d). (p, size_blk (blocks s' 4096), is_free (blocks s' 4096), d))
        (my_malloc fresh_engine (- 1)) = Some (4128, 16, False, [])"
  by (simp add: fresh_engine_fields) (simp add: eval_defs hdr_writes alloc_consts)

lemma drift_frame:
  "blocks (drift s c f) = blocks s" "free_list (drift s c f) = free_list s"
  "heap_start (drift s c f) = heap_start s" "heap_end (drift s c f) = heap_end s"
  "bytes (drift s c f) = bytes s"
  by (simp_all add: drift_def)

lemma splitBlock_drift:
  "snd (splitBlock (drift s c f) b n) = drift (snd (splitBlock s b n)) c f"
  by (simp add: splitBlock_def Let_def drift_def)

lemma updateStatsAfterAlloc_drift:
  "updateStatsAfterAlloc (drift t c f) v = updateStatsAfterAlloc t v"
  by (simp add: updateStatsAfterAlloc_def recalculateBlockCounts_def drift_def
      split: option.splits)

lemma my_malloc_unfold:
  assumes "sz \<noteq> 0" and "findFreeBlock s (max (alignSize sz) MIN_BLOCK_SIZE) = Some b"
    and "b \<noteq> 0"
  shows "my_malloc s sz =
    (case updateStatsAfterAlloc (take_block s b (max (alignSize sz) MIN_BLOCK_SIZE))
       (size_blk (blocks (take_block s b (max (alignSize sz) MIN_BLOCK_SIZE)) b)) of
       None \<Rightarrow> None | Some s3 \<Rightarrow> Some (getData b, s3, []))"
  using assms by (simp add: my_malloc_def Let_def need_max take_block_def)

lemma my_malloc_null:
  assumes "my_malloc s sz = Some (p, r, d)" and "p \<noteq> 0"
  shows "sz \<noteq> 0 \<and> (\<exists>b. findFreeBlock s (max (alignSize sz) MIN_BLOCK_SIZE) = Some b \<and> b \<noteq> 0)"
  using assms by (auto simp add: my_malloc_def Let_def need_max split: if_splits option.splits)

lemma take_block_drift: "take_block (drift s c f) b n = drift (take_block s b n) c f"
  by (simp add: take_block_def Let_def splitBlock_drift drift_frame) (simp add: drift_def)

lemma my_malloc_drift:
  assumes "my_malloc s sz = Some (p, r, d)" and "p \<noteq> 0"
  shows "my_malloc (drift s c f) sz = Some (p, r, d)"
proof -
  from my_malloc_null [OF assms] obtain b where sz: "sz \<noteq> 0"
    and ff: "findFreeBlock s (max (alignSize sz) MIN_BLOCK_SIZE) = Some b" and b: "b \<noteq> 0"
    by blast
  have ff': "findFreeBlock (drift s c f) (max (alignSize sz) MIN_BLOCK_SIZE) = Some b"
    using ff by (simp add: findFreeBlock_def drift_frame)
  have "my_malloc (drift s c f) sz = my_malloc s sz"
    by (simp only: my_malloc_unfold [OF sz ff b] my_malloc_unfold [OF sz ff' b]
        take_block_drift updateStatsAfterAlloc_drift drift_frame)
  with assms(1) show ?thesis by simp
qed

lemma merge_blocks_drift: "merge_blocks (drift s c f) a b = drift (merge_blocks s a b) c f"
  by (simp add: merge_blocks_def drift_def Let_def state_writes)

lemma coalesce_next_drift: "coalesce_next (drift s c f) b = drift (coalesce_next s b) c f"
  by (simp only: coalesce_next_eq drift_frame merge_blocks_drift if_distrib [of "\<lambda>t. drift t c f"])

lemma coalesce_prev_drift:
  "snd (coalesce_prev (drift s c f) b) = drift (snd (coalesce_prev s b)) c f"
  by (simp only: coalesce_prev_eq drift_frame merge_blocks_drift if_distrib [of "\<lambda>t. drift t c f"])

lemma release_drift: "release (drift s c f) b = drift (release s b) c f"
  by (simp add: release_def Let_def updateStatsAfterFree_def drift_def)

lemma my_free_unfold:
  "my_free s q =
     (if q = 0 then (s, [])
      else if \<not> isValidPointer s q then (s, [FreeInvalidPointer])
      else if is_free (blocks s (fromData q)) then (s, [FreeDoubleFree])
      else (snd (coalesce_prev (coalesce_next (release s (fromData q)) (fromData q)) (fromData q)),
            []))"
  by (simp add: my_free_def Let_def release_def coalesceBlock_def)

lemma isValidPointer_drift: "isValidPointer (drift s c f) q = isValidPointer s q"
  by (simp add: isValidPointer_def drift_frame)

lemma my_free_drift:
  "my_free (drift s c f) q = (drift (fst (my_free s q)) c f, snd (my_free s q))"
  by (simp add: my_free_unfold isValidPointer_drift drift_frame release_drift
      coalesce_next_drift coalesce_prev_drift)

lemma my_realloc_expand:
  assumes "expands_in_place s q n"
  shows "my_realloc s q n = Some (q, expand_state s (fromData q), [])"
  using assms
  by (simp add: expands_in_place_def my_realloc_def Let_def expand_state_def merge_headers_def
      add.assoc)

lemma expand_state_drift: "expand_state (drift s c f) b = drift (expand_state s b) c f"
  by (simp add: expand_state_def drift_def Let_def state_writes)

lemma expands_in_place_drift: "expands_in_place (drift s c f) q n = expands_in_place s q n"
  by (simp add: expands_in_place_def isValidPointer_drift drift_frame)

lemma my_realloc_relocate:
  assumes "relocates s q n"
  shows "my_realloc s q n =
     (case my_malloc s (alignSize n) of
        None \<Rightarrow> None
      | Some (new_ptr, s1, d1) \<Rightarrow>
          if new_ptr = 0 then Some (0, s1, d1)
          else Some (new_ptr,
                 fst (my_free (s1\<lparr>bytes := memcpy (bytes s1) new_ptr q
                        (size_blk (blocks s (fromData q)))\<rparr>) q),
                 d1 @ snd (my_free (s1\<lparr>bytes := memcpy (bytes s1) new_ptr q
                        (size_blk (blocks s (fromData q)))\<rparr>) q)))"
proof -
  from assms have g: "q \<noteq> 0" "n \<noteq> 0" "isValidPointer s q"
    "\<not> alignSize n \<le> size_blk (blocks s (fromData q))"
    and ne: "\<not> (next_blk (blocks s (fromData q)) \<noteq> 0
       \<and> is_free (blocks s (next_blk (blocks s (fromData q))))
       \<and> alignSize n \<le> size_blk (blocks s (fromData q)) + sizeof_MemoryBlock
           + size_blk (blocks s (next_blk (blocks s (fromData q)))))"
    by (auto simp add: relocates_def expands_in_place_def)
  show ?thesis
    unfolding my_realloc_def Let_def
    by (simp only: g ne if_False if_True not_False_eq_True not_not)
      (simp add: case_prod_beta split: option.splits)
qed

lemma relocates_drift: "relocates (drift s c f) q n = relocates s q n"
  by (simp add: relocates_def expands_in_place_drift isValidPointer_drift drift_frame)

lemma my_realloc_relocate_drift:
  assumes rel: "relocates s q n" and res: "my_realloc s q n = Some (p, r, d)" and p: "p \<noteq> 0"
  shows "my_realloc (drift s c f) q n = Some (p, r, d)"
proof -
  from res p obtain s1 d1 where m: "my_malloc s (alignSize n) = Some (p, s1, d1)"
    by (auto simp add: my_realloc_relocate [OF rel] split: option.splits if_splits)
  from my_malloc_drift [OF m p] have m': "my_malloc (drift s c f) (alignSize n) = Some (p, s1, d1)" .
  have rel': "relocates (drift s c f) q n" using rel by (simp add: relocates_drift)
  show ?thesis
    using res p by (simp add: my_realloc_relocate [OF rel] my_realloc_relocate [OF rel'] m m'
        drift_frame)
qed

lemma well_formed_stats: "well_formed (s\<lparr>stats := st\<rparr>) bs = well_formed s bs"
  by (simp add: well_formed_def valid_region_def)

lemma my_malloc_counts:
  assumes wf: "well_formed s bs" and res: "my_malloc s sz = Some (p, r, d)" and p: "p \<noteq> 0"
  shows "\<exists>bs'. well_formed r bs'
      \<and> block_count (stats r) = of_nat (length bs')
      \<and> free_block_count (stats r) = of_nat (length (filter (\<lambda>x. is_free (blocks r x)) bs'))"
proof -
  let ?need = "max (alignSize sz) MIN_BLOCK_SIZE"
  from res p have sz: "sz \<noteq> 0" by (auto simp add: my_malloc_def)
  show ?thesis
  proof (cases "find (fits (blocks s) ?need) bs")
    case None
    then have "\<forall>b \<in> set bs. \<not> fits (blocks s) ?need b" by (simp add: find_None_iff)
    from my_malloc_no_fit [OF well_formed_chain [OF wf] sz this] res p
    show ?thesis by simp
  next
    case (Some b)
    from find_SomeD [OF Some] obtain xs ys where
      bs: "bs = xs @ b # ys" and fit: "fits (blocks s) ?need b"
      and nofit: "\<forall>x \<in> set xs. \<not> fits (blocks s) ?need x" by blast
    let ?t = "take_block s b ?need"
    let ?bs' = "chain_after_take (blocks s) ?need xs b ys"
    from my_malloc_wf [OF wf [unfolded bs] sz refl fit nofit] res
    have r: "r = ?t\<lparr>stats := malloc_stats ?t b ?bs'\<rparr>" by simp
    have "well_formed ?t ?bs'"
      using wf [unfolded bs] fit need_ge_16 by (rule take_block_wf)
    then have "well_formed r ?bs'"
      by (simp add: r well_formed_stats)
    moreover have "block_count (stats r) = of_nat (length ?bs')"
      and "free_block_count (stats r) = of_nat (length (filter (\<lambda>x. is_free (blocks r x)) ?bs'))"
      by (simp_all add: r malloc_stats_def)
    ultimately show ?thesis by blast
  qed
qed

lemma my_malloc_fresh_100: "my_malloc fresh_engine 100 = Some (4128, live_engine, [])"
  by (simp add: live_engine_def eval_defs hdr_writes alloc_consts)

lemma live_engine_wf: "well_formed live_engine [4096, 4232]"
  by (simp add: well_formed_def valid_region_def live_engine_fields) 
    (simp add: live_engine_def eval_defs hdr_writes alloc_consts)

lemma two_live_engine_fields:
  "heap_start two_live_engine = 4096" "heap_end two_live_engine = 8192"
  "blocks two_live_engine 4096 = \<lparr>size_blk = 104, is_free = False, next_blk = 4232, prev_blk = 0\<rparr>"
  "blocks two_live_engine 4232 = \<lparr>size_blk = 104, is_free = False, next_blk = 4368, prev_blk = 4096\<rparr>"
  "blocks two_live_engine 4368 = \<lparr>size_blk = 3792, is_free = True, next_blk = 0, prev_blk = 4232\<rparr>"
  "free_list two_live_engine = 4096" "heap_size two_live_engine = 4096"
  by (simp_all add: two_live_engine_def live_engine_def eval_defs hdr_writes alloc_consts)

lemma two_live_engine_wf: "well_formed two_live_engine [4096, 4232, 4368]"
  by (simp add: well_formed_def valid_region_def two_live_engine_fields)

text \<open>
  C10. A successful \<open>my_malloc\<close> on a well-formed engine ends with \<open>block_count\<close>
  and \<open>free_block_count\<close> equal to the numbers of blocks and of free blocks of the
  chain, whatever the two counters held before: shifting them by any \<open>c\<close> and \<open>f\<close>
  beforehand gives the same result, also when the allocation is the one made on the
  relocation path of \<open>my_realloc\<close>. \<open>my_free\<close> and the forward-expand path of
  \<open>my_realloc\<close> only adjust the counters, so the same shift is still there afterwards.
\<close>

theorem recount_only_after_allocation:
  "(well_formed s bs \<and> my_malloc s sz = Some (p, r, d) \<and> p \<noteq> 0 \<longrightarrow>
      (\<exists>bs'. chain (blocks r) (free_list r) bs'
         \<and> block_count (stats r) = of_nat (length bs')
         \<and> free_block_count (stats r)
             = of_nat (length (filter (\<lambda>x. is_free (blocks r x)) bs'))))
   \<and> (my_malloc s sz = Some (p, r, d) \<and> p \<noteq> 0 \<longrightarrow>
        my_malloc (drift s c f) sz = Some (p, r, d))
   \<and> (relocates s q n \<and> my_realloc s q n = Some (p, r, d) \<and> p \<noteq> 0 \<longrightarrow>
        my_realloc (drift s c f) q n = Some (p, r, d))
   \<and> my_free (drift s c f) q = (drift (fst (my_free s q)) c f, snd (my_free s q))
   \<and> (expands_in_place s q n \<longrightarrow>
        my_realloc s q n = Some (q, expand_state s (fromData q), [])
        \<and> my_realloc (drift s c f) q n = Some (q, drift (expand_state s (fromData q)) c f, []))"
proof (intro conjI impI)
  assume "well_formed s bs \<and> my_malloc s sz = Some (p, r, d) \<and> p \<noteq> 0"
  then have "\<exists>bs'. well_formed r bs'
      \<and> block_count (stats r) = of_nat (length bs')
      \<and> free_block_count (stats r) = of_nat (length (filter (\<lambda>x. is_free (blocks r x)) bs'))"
    by (intro my_malloc_counts [of s bs sz p r d]) simp_all
  then show "\<exists>bs'. chain (blocks r) (free_list r) bs'
         \<and> block_count (stats r) = of_nat (length bs')
         \<and> free_block_count (stats r)
             = of_nat (length (filter (\<lambda>x. is_free (blocks r x)) bs'))"
    using well_formed_chain by blast
next
  assume "my_malloc s sz = Some (p, r, d) \<and> p \<noteq> 0"
  then show "my_malloc (drift s c f) sz = Some (p, r, d)"
    using my_malloc_drift by blast
next
  assume "relocates s q n \<and> my_realloc s q n = Some (p, r, d) \<and> p \<noteq> 0"
  then show "my_realloc (drift s c f) q n = Some (p, r, d)"
    using my_realloc_relocate_drift by blast
next
  show "my_free (drift s c f) q = (drift (fst (my_free s q)) c f, snd (my_free s q))"
    by (rule my_free_drift)
next
  assume e: "expands_in_place s q n"
  then show "my_realloc s q n = Some (q, expand_state s (fromData q), [])"
    by (rule my_realloc_expand)
  from e have "expands_in_place (drift s c f) q n" by (simp add: expands_in_place_drift)
  from my_realloc_expand [OF this]
  show "my_realloc (drift s c f) q n = Some (q, drift (expand_state s (fromData q)) c f, [])"
    by (simp add: expand_state_drift)
qed

theorem recount_only_after_allocation_witness:
  "(\<exists>bs'. chain (blocks live_engine) (free_list live_engine) bs'
         \<and> block_count (stats live_engine) = of_nat (length bs')
         \<and> free_block_count (stats live_engine)
             = of_nat (length (filter (\<lambda>x. is_free (blocks live_engine x)) bs')))
   \<and> my_malloc (drift fresh_engine 5 7) 100 = Some (4128, live_engine, [])
   \<and> my_realloc (drift two_live_engine 5 7) 4128 200 = my_realloc two_live_engine 4128 200
   \<and> map_option fst (my_realloc two_live_engine 4128 200) = Some 4400
   \<and> my_realloc (drift live_engine 5 7) 4128 200
       = Some (4128, drift (expand_state live_engine (fromData 4128)) 5 7, [])"
proof -
  have p: "(4128 :: ptr) \<noteq> 0" "(4400 :: ptr) \<noteq> 0" by simp_all
  note m = my_malloc_fresh_100
  have e: "expands_in_place live_engine 4128 200"
    by (simp add: expands_in_place_def isValidPointer_def fromData_def alignSize_def
        alloc_consts live_engine_fields)
  have rel: "relocates two_live_engine 4128 200"
    by (simp add: relocates_def expands_in_place_def isValidPointer_def fromData_def
        alignSize_def alloc_consts two_live_engine_fields)
  have a: "alignSize 200 = 200" "max 200 MIN_BLOCK_SIZE = 200"
    by (simp_all add: alignSize_def alloc_consts)
  have fnd: "find (fits (blocks two_live_engine) 200) [4096, 4232, 4368] = Some 4368"
    by (simp add: fits_def two_live_engine_fields)
  have z: "(200 :: size_t) \<noteq> 0" by simp
  from my_malloc_first_fit_aux [OF two_live_engine_wf z, unfolded a fnd option.case]
  obtain s1 where "my_malloc two_live_engine 200 = Some (4400, s1, [])"
    by (auto simp add: getData_def sizeof_MemoryBlock_def)
  then have "map_option fst (my_realloc two_live_engine 4128 200) = Some 4400"
    by (simp add: my_realloc_relocate [OF rel] a)
  then obtain r d where res: "my_realloc two_live_engine 4128 200 = Some (4400, r, d)"
    by auto
  note t = recount_only_after_allocation
  have 1: "\<exists>bs'. chain (blocks live_engine) (free_list live_engine) bs'
         \<and> block_count (stats live_engine) = of_nat (length bs')
         \<and> free_block_count (stats live_engine)
             = of_nat (length (filter (\<lambda>x. is_free (blocks live_engine x)) bs'))"
    using t [of fresh_engine "[4096]" 100 4128 live_engine "[]"] fresh_engine_wf m p by blast
  have 2: "my_malloc (drift fresh_engine 5 7) 100 = Some (4128, live_engine, [])"
    using t [of fresh_engine "[4096]" 100 4128 live_engine "[]" 5 7] m p by blast
  have 3: "my_realloc (drift two_live_engine 5 7) 4128 200 = Some (4400, r, d)"
    using t [of two_live_engine "[]" 200 4400 r d 5 7 4128 200] rel res p by blast
  have 4: "my_realloc (drift live_engine 5 7) 4128 200
       = Some (4128, drift (expand_state live_engine (fromData 4128)) 5 7, [])"
    using t [of live_engine "[]" 200 4128 live_engine "[]" 5 7 4128 200] e by blast
  from 1 2 3 4 res show ?thesis by simp
qed

lemma sums_append [simp]:
  "used_sum h (xs @ ys) = used_sum h xs + used_sum h ys"
  "free_sum h (xs @ ys) = free_sum h xs + free_sum h ys"
  "free_blocks h (xs @ ys) = free_blocks h xs @ free_blocks h ys"
  by (simp_all add: used_sum_def free_sum_def free_blocks_def)

lemma sums_Cons [simp]:
  "used_sum h (b # bs) = (if is_free (h b) then 0 else size_blk (h b)) + used_sum h bs"
  "free_sum h (b # bs) = (if is_free (h b) then size_blk (h b) else 0) + free_sum h bs"
  "free_blocks h (b # bs) = (if is_free (h b) then b # free_blocks h bs else free_blocks h bs)"
  by (simp_all add: used_sum_def free_sum_def free_blocks_def)

lemma sums_Nil [simp]: "used_sum h [] = 0" "free_sum h [] = 0" "free_blocks h [] = []"
  by (simp_all add: used_sum_def free_sum_def free_blocks_def)

lemma sums_cong:
  assumes "\<And>b. b \<in> set bs \<Longrightarrow> is_free (h' b) = is_free (h b) \<and> size_blk (h' b) = size_blk (h b)"
  shows "used_sum h' bs = used_sum h bs" and "free_sum h' bs = free_sum h bs"
    and "free_blocks h' bs = free_blocks h bs"
proof -
  have "used_sum h' bs = used_sum h bs \<and> free_sum h' bs = free_sum h bs
      \<and> free_blocks h' bs = free_blocks h bs"
    using assms by (induction bs) auto
  then show "used_sum h' bs = used_sum h bs" and "free_sum h' bs = free_sum h bs"
    and "free_blocks h' bs = free_blocks h bs" by simp_all
qed

lemma accounting_stats_only:
  "blocks s' = blocks s \<Longrightarrow> stats s' = stats s \<Longrightarrow> accounting s' bs = accounting s bs"
  by (simp add: accounting_def)

lemma sums_cong_notin:
  assumes "b \<notin> set bs"
    and "\<And>x. x \<noteq> b \<Longrightarrow> is_free (h' x) = is_free (h x) \<and> size_blk (h' x) = size_blk (h x)"
  shows "used_sum h' bs = used_sum h bs" and "free_sum h' bs = free_sum h bs"
    and "free_blocks h' bs = free_blocks h bs"
proof -
  have "x \<in> set bs \<Longrightarrow> is_free (h' x) = is_free (h x) \<and> size_blk (h' x) = size_blk (h x)" for x
    using assms by (cases "x = b") auto
  from sums_cong [of bs h' h, OF this]
  show "used_sum h' bs = used_sum h bs" and "free_sum h' bs = free_sum h bs"
    and "free_blocks h' bs = free_blocks h bs" by simp_all
qed

lemma accountingD:
  assumes "accounting s bs"
  shows "used_memory (stats s) = used_sum (blocks s) bs"
    and "free_memory (stats s)
         = free_sum (blocks s) bs + (of_nat (length bs) - 1) * sizeof_MemoryBlock"
    and "block_count (stats s) = of_nat (length bs)"
    and "free_block_count (stats s) = of_nat (length (free_blocks (blocks s) bs))"
    and "used_memory (stats s) + free_memory (stats s) + sizeof_MemoryBlock
         = total_heap_size (stats s)"
  using assms unfolding accounting_def by blast+

lemma accountingI:
  assumes "used_memory (stats s) = used_sum (blocks s) bs"
    and "free_memory (stats s)
         = free_sum (blocks s) bs + (of_nat (length bs) - 1) * sizeof_MemoryBlock"
    and "block_count (stats s) = of_nat (length bs)"
    and "free_block_count (stats s) = of_nat (length (free_blocks (blocks s) bs))"
    and "used_memory (stats s) + free_memory (stats s) + sizeof_MemoryBlock
         = total_heap_size (stats s)"
  shows "accounting s bs"
  using assms unfolding accounting_def by blast

lemma release_accounting:
  assumes wf: "well_formed s (xs @ b # ys)" and acc: "accounting s (xs @ b # ys)"
    and live: "\<not> is_free (blocks s b)"
  shows "accounting (release s b) (xs @ b # ys)"
proof -
  let ?h = "blocks s" and ?h' = "set_is_free (blocks s) b True"
  from well_formed_distinct [OF wf] have bx: "b \<notin> set xs" and bys: "b \<notin> set ys" by auto
  have same: "x \<noteq> b \<Longrightarrow> is_free (?h' x) = is_free (?h x) \<and> size_blk (?h' x) = size_blk (?h x)"
    for x by (simp add: set_is_free_fields)
  note cx = sums_cong_notin [OF bx same] and cy = sums_cong_notin [OF bys same]
  have fb: "is_free (?h' b)" "size_blk (?h' b) = size_blk (?h b)"
    by (simp_all add: set_is_free_fields)
  note a = accountingD [OF acc]
  show ?thesis
  proof (rule accountingI)
    show "used_memory (stats (release s b)) = used_sum (blocks (release s b)) (xs @ b # ys)"
      using a(1) live by (simp add: release_frame cx cy fb)
    show "free_memory (stats (release s b)) = free_sum (blocks (release s b)) (xs @ b # ys)
        + (of_nat (length (xs @ b # ys)) - 1) * sizeof_MemoryBlock"
      using a(2) live by (simp add: release_frame cx cy fb)
    show "block_count (stats (release s b)) = of_nat (length (xs @ b # ys))"
      using a(3) by (simp add: release_frame)
    show "free_block_count (stats (release s b))
        = of_nat (length (free_blocks (blocks (release s b)) (xs @ b # ys)))"
      using a(4) live by (simp add: release_frame cx cy fb)
    show "used_memory (stats (release s b)) + free_memory (stats (release s b))
        + sizeof_MemoryBlock = total_heap_size (stats (release s b))"
      using a(5) by (simp add: release_frame)
  qed
qed

lemma merge_accounting:
  assumes wf: "well_formed s (xs @ a # c # ys)" and acc: "accounting s (xs @ a # c # ys)"
    and fa: "is_free (blocks s a)" and fc: "is_free (blocks s c)"
  shows "accounting (merge_blocks s a c) (xs @ a # ys)"
proof -
  let ?h = "blocks s" and ?h' = "merge_headers (blocks s) a c"
  from well_formed_distinct [OF wf] have ax: "a \<notin> set xs" and ay: "a \<notin> set ys" by auto
  have same: "x \<noteq> a \<Longrightarrow> is_free (?h' x) = is_free (?h x) \<and> size_blk (?h' x) = size_blk (?h x)"
    for x by (simp add: merge_headers_fields)
  note cx = sums_cong_notin [OF ax same] and cy = sums_cong_notin [OF ay same]
  have f': "is_free (?h' a)"
    "size_blk (?h' a) = size_blk (?h a) + (sizeof_MemoryBlock + size_blk (?h c))"
    using fa by (simp_all add: merge_headers_fields)
  note a = accountingD [OF acc]
  show ?thesis
  proof (rule accountingI)
    show "used_memory (stats (merge_blocks s a c))
        = used_sum (blocks (merge_blocks s a c)) (xs @ a # ys)"
      using a(1) fa fc by (simp add: merge_blocks_frame cx cy f')
    show "free_memory (stats (merge_blocks s a c))
        = free_sum (blocks (merge_blocks s a c)) (xs @ a # ys)
        + (of_nat (length (xs @ a # ys)) - 1) * sizeof_MemoryBlock"
      using a(2) fa fc by (simp add: merge_blocks_frame cx cy f' algebra_simps)
    show "block_count (stats (merge_blocks s a c)) = of_nat (length (xs @ a # ys))"
      using a(3) by (simp add: merge_blocks_frame)
    show "free_block_count (stats (merge_blocks s a c))
        = of_nat (length (free_blocks (blocks (merge_blocks s a c)) (xs @ a # ys)))"
      using a(4) fa fc by (simp add: merge_blocks_frame cx cy f')
    show "used_memory (stats (merge_blocks s a c)) + free_memory (stats (merge_blocks s a c))
        + sizeof_MemoryBlock = total_heap_size (stats (merge_blocks s a c))"
      using a(5) by (simp add: merge_blocks_frame)
  qed
qed

lemma take_accounting:
  assumes wf: "well_formed s (xs @ b # ys)" and acc: "accounting s (xs @ b # ys)"
    and fit: "fits (blocks s) need b" and need: "16 \<le> unat need"
  defines "t \<equiv> take_block s b need"
    and "bs' \<equiv> chain_after_take (blocks s) need xs b ys"
  shows "accounting (t\<lparr>stats := malloc_stats t b bs'\<rparr>) bs'"
proof -
  let ?h = "blocks s" and ?h' = "blocks t"
  note a = accountingD [OF acc]
  have fb: "is_free (?h b)" using fit by (simp add: fits_def)
  have wf': "well_formed t bs'" unfolding t_def bs'_def using wf fit need by (rule take_block_wf)
  have st: "used_memory (stats t) = used_memory (stats s)"
    "free_memory (stats t) = free_memory (stats s)"
    "total_heap_size (stats t) = total_heap_size (stats s)"
    by (simp_all add: t_def take_block_stats)
  show ?thesis
  proof (cases "will_split ?h b need")
    case True
    define n where "n = b + sizeof_MemoryBlock + need"
    have bs': "bs' = xs @ b # n # ys"
      using True by (simp add: bs'_def chain_after_take_def n_def)
    note f = take_block_fields_split [OF True n_def, folded t_def]
    from well_formed_distinct [OF wf'] have d: "b \<notin> set xs" "b \<notin> set ys" "n \<notin> set xs"
      "n \<notin> set ys" "n \<noteq> b" by (auto simp add: bs')
    have same: "is_free (?h' x) = is_free (?h x) \<and> size_blk (?h' x) = size_blk (?h x)"
      if "x \<noteq> b" "x \<noteq> n" for x using that by (simp add: f)
    have cx: "used_sum ?h' xs = used_sum ?h xs" "free_sum ?h' xs = free_sum ?h xs"
      "free_blocks ?h' xs = free_blocks ?h xs"
      by (rule sums_cong, rule same, use d in auto)+
    have cy: "used_sum ?h' ys = used_sum ?h ys" "free_sum ?h' ys = free_sum ?h ys"
      "free_blocks ?h' ys = free_blocks ?h ys"
      by (rule sums_cong, rule same, use d in auto)+
    have fb': "\<not> is_free (?h' b)" "size_blk (?h' b) = need" "is_free (?h' n)"
      "size_blk (?h' n) = size_blk (?h b) - need - sizeof_MemoryBlock"
      using d(5) by (simp_all add: f)
    show ?thesis
    proof (rule accountingI)
      show "used_memory (stats (t\<lparr>stats := malloc_stats t b bs'\<rparr>))
          = used_sum (blocks (t\<lparr>stats := malloc_stats t b bs'\<rparr>)) bs'"
        using a(1) fb by (simp add: malloc_stats_def st bs' cx cy fb')
      show "free_memory (stats (t\<lparr>stats := malloc_stats t b bs'\<rparr>))
          = free_sum (blocks (t\<lparr>stats := malloc_stats t b bs'\<rparr>)) bs'
          + (of_nat (length bs') - 1) * sizeof_MemoryBlock"
        using a(2) fb by (simp add: malloc_stats_def st bs' cx cy fb' algebra_simps)
      show "block_count (stats (t\<lparr>stats := malloc_stats t b bs'\<rparr>)) = of_nat (length bs')"
        by (simp add: malloc_stats_def)
      show "free_block_count (stats (t\<lparr>stats := malloc_stats t b bs'\<rparr>))
          = of_nat (length (free_blocks (blocks (t\<lparr>stats := malloc_stats t b bs'\<rparr>)) bs'))"
        by (simp add: malloc_stats_def free_blocks_def)
      show "used_memory (stats (t\<lparr>stats := malloc_stats t b bs'\<rparr>))
          + free_memory (stats (t\<lparr>stats := malloc_stats t b bs'\<rparr>)) + sizeof_MemoryBlock
          = total_heap_size (stats (t\<lparr>stats := malloc_stats t b bs'\<rparr>))"
        using a(5) by (simp add: malloc_stats_def st)
    qed
  next
    case False
    have bs': "bs' = xs @ b # ys"
      using False by (simp add: bs'_def chain_after_take_def)
    have h': "?h' = set_is_free ?h b False"
      unfolding t_def by (rule take_block_fields_whole [OF False])
    from well_formed_distinct [OF wf] have d: "b \<notin> set xs" "b \<notin> set ys" by auto
    have same: "x \<noteq> b \<Longrightarrow> is_free (?h' x) = is_free (?h x) \<and> size_blk (?h' x) = size_blk (?h x)"
      for x by (simp add: h' set_is_free_fields)
    note cx = sums_cong_notin [OF d(1) same] and cy = sums_cong_notin [OF d(2) same]
    have fb': "\<not> is_free (?h' b)" "size_blk (?h' b) = size_blk (?h b)"
      by (simp_all add: h' set_is_free_fields)
    show ?thesis
    proof (rule accountingI)
      show "used_memory (stats (t\<lparr>stats := malloc_stats t b bs'\<rparr>))
          = used_sum (blocks (t\<lparr>stats := malloc_stats t b bs'\<rparr>)) bs'"
        using a(1) fb by (simp add: malloc_stats_def st bs' cx cy fb')
      show "free_memory (stats (t\<lparr>stats := malloc_stats t b bs'\<rparr>))
          = free_sum (blocks (t\<lparr>stats := malloc_stats t b bs'\<rparr>)) bs'
          + (of_nat (length bs') - 1) * sizeof_MemoryBlock"
        using a(2) fb by (simp add: malloc_stats_def st bs' cx cy fb' algebra_simps)
      show "block_count (stats (t\<lparr>stats := malloc_stats t b bs'\<rparr>)) = of_nat (length bs')"
        by (simp add: malloc_stats_def)
      show "free_block_count (stats (t\<lparr>stats := malloc_stats t b bs'\<rparr>))
          = of_nat (length (free_blocks (blocks (t\<lparr>stats := malloc_stats t b bs'\<rparr>)) bs'))"
        by (simp add: malloc_stats_def free_blocks_def)
      show "used_memory (stats (t\<lparr>stats := malloc_stats t b bs'\<rparr>))
          + free_memory (stats (t\<lparr>stats := malloc_stats t b bs'\<rparr>)) + sizeof_MemoryBlock
          = total_heap_size (stats (t\<lparr>stats := malloc_stats t b bs'\<rparr>))"
        using a(5) by (simp add: malloc_stats_def st)
    qed
  qed
qed

lemma merge_next_accounting:
  assumes wf: "well_formed s (xs @ b # ys)" and acc: "accounting s (xs @ b # ys)"
    and live: "\<not> is_free (blocks s b)"
  shows "accounting (merge_next s (release s b) b ys) (xs @ b # rest_after_free (blocks s) ys)"
proof -
  have wf2: "well_formed (release s b) (xs @ b # ys)" using wf by (rule release_wf)
  have acc2: "accounting (release s b) (xs @ b # ys)" using wf acc live by (rule release_accounting)
  show ?thesis
  proof (cases ys)
    case Nil
    with acc2 show ?thesis by (simp add: merge_next_def rest_after_free_def)
  next
    case (Cons c cs)
    show ?thesis
    proof (cases "is_free (blocks s c)")
      case True
      from well_formed_distinct [OF wf] Cons have "c \<noteq> b" by auto
      with True have fc: "is_free (blocks (release s b) c)"
        by (simp add: release_frame set_is_free_fields)
      have fb: "is_free (blocks (release s b) b)"
        by (simp add: release_frame set_is_free_fields)
      from merge_accounting [OF wf2 [unfolded Cons] acc2 [unfolded Cons] fb fc] True Cons
      show ?thesis by (simp add: merge_next_def rest_after_free_def)
    next
      case False
      with acc2 Cons show ?thesis by (simp add: merge_next_def rest_after_free_def)
    qed
  qed
qed

lemma free_state_accounting:
  assumes wf: "well_formed s (xs @ b # ys)" and acc: "accounting s (xs @ b # ys)"
    and live: "\<not> is_free (blocks s b)"
  shows "accounting (free_state s xs b ys) (chain_after_free (blocks s) xs b ys)"
proof -
  let ?s3 = "merge_next s (release s b) b ys"
  let ?zs = "rest_after_free (blocks s) ys"
  have wf3: "well_formed ?s3 (xs @ b # ?zs)" by (rule coalesce_next_release(2) [OF wf])
  have acc3: "accounting ?s3 (xs @ b # ?zs)" using wf acc live by (rule merge_next_accounting)
  show ?thesis
  proof (cases xs rule: rev_cases)
    case Nil
    with acc3 show ?thesis by (simp add: free_state_def merge_prev_def chain_after_free_def)
  next
    case (snoc us a)
    show ?thesis
    proof (cases "is_free (blocks s a)")
      case True
      from well_formed_distinct [OF wf] snoc have "a \<noteq> b" by auto
      with True have fa: "is_free (blocks ?s3 a)" by (simp add: merge_next_is_free)
      have fb: "is_free (blocks ?s3 b)" by (simp add: merge_next_is_free)
      from wf3 snoc have wf3': "well_formed ?s3 (us @ a # b # ?zs)" by simp
      from acc3 snoc have acc3': "accounting ?s3 (us @ a # b # ?zs)" by simp
      from merge_accounting [OF wf3' acc3' fa fb] True snoc
      show ?thesis by (simp add: free_state_def merge_prev_def chain_after_free_def)
    next
      case False
      with acc3 snoc show ?thesis
        by (simp add: free_state_def merge_prev_def chain_after_free_def)
    qed
  qed
qed

lemma chain_after_free_subset: "set (chain_after_free h xs b ys) \<subseteq> set (xs @ b # ys)"
  by (cases ys) (auto simp add: chain_after_free_def rest_after_free_def)

lemma chain_after_take_superset: "set (xs @ b # ys) \<subseteq> set (chain_after_take h need xs b ys)"
  by (auto simp add: chain_after_take_def)

lemma getData_fromData: "getData (fromData p) = p"
  by (simp add: getData_def fromData_def)

lemma my_free_accounting:
  assumes wf: "well_formed s bs" and acc: "accounting s bs"
    and p: "p = 0 \<or> fromData p \<in> set bs"
  shows "\<exists>bs'. well_formed (fst (my_free s p)) bs' \<and> accounting (fst (my_free s p)) bs'
           \<and> set bs' \<subseteq> set bs"
proof (cases "fst (my_free s p) = s")
  case True
  with wf acc show ?thesis by auto
next
  case False
  then have g: "p \<noteq> 0" "\<not> is_free (blocks s (fromData p))"
    by (auto simp add: my_free_unfold split: if_splits)
  with p obtain xs ys where bs: "bs = xs @ fromData p # ys"
    by (auto dest: split_list)
  note fw = my_free_wf [OF wf [unfolded bs] g(2), unfolded getData_fromData]
  from free_state_accounting [OF wf [unfolded bs] acc [unfolded bs] g(2)] fw
    chain_after_free_subset [of "blocks s" xs "fromData p" ys]
  show ?thesis unfolding bs by (intro exI [of _ "chain_after_free (blocks s) xs (fromData p) ys"]) simp
qed

lemma my_malloc_accounting:
  assumes wf: "well_formed s bs" and acc: "accounting s bs"
  shows "\<exists>p s' d bs'. my_malloc s sz = Some (p, s', d) \<and> well_formed s' bs'
           \<and> accounting s' bs' \<and> set bs \<subseteq> set bs'"
proof (cases "sz = 0")
  case True
  with wf acc show ?thesis by (auto simp add: my_malloc_def)
next
  case sz: False
  let ?need = "max (alignSize sz) MIN_BLOCK_SIZE"
  show ?thesis
  proof (cases "find (fits (blocks s) ?need) bs")
    case None
    then have "\<forall>b \<in> set bs. \<not> fits (blocks s) ?need b" by (simp add: find_None_iff)
    from my_malloc_no_fit [OF well_formed_chain [OF wf] sz this] wf acc
    show ?thesis by auto
  next
    case (Some b)
    from find_SomeD [OF Some] obtain xs ys where
      bs: "bs = xs @ b # ys" and fit: "fits (blocks s) ?need b"
      and nofit: "\<forall>x \<in> set xs. \<not> fits (blocks s) ?need x" by blast
    let ?t = "take_block s b ?need"
    let ?bs' = "chain_after_take (blocks s) ?need xs b ys"
    note m = my_malloc_wf [OF wf [unfolded bs] sz refl fit nofit]
    have "well_formed ?t ?bs'"
      using wf [unfolded bs] fit need_ge_16 by (rule take_block_wf)
    then have 1: "well_formed (?t\<lparr>stats := malloc_stats ?t b ?bs'\<rparr>) ?bs'"
      by (simp add: well_formed_stats)
    have 2: "accounting (?t\<lparr>stats := malloc_stats ?t b ?bs'\<rparr>) ?bs'"
      using wf [unfolded bs] acc [unfolded bs] fit need_ge_16 by (rule take_accounting)
    from m 1 2 chain_after_take_superset [of xs b ys "blocks s" ?need]
    show ?thesis unfolding bs by blast
  qed
qed

lemma well_formed_bytes: "well_formed (s\<lparr>bytes := m\<rparr>) bs = well_formed s bs"
  by (simp add: well_formed_def valid_region_def)

lemma accounting_bytes: "accounting (s\<lparr>bytes := m\<rparr>) bs = accounting s bs"
  by (simp add: accounting_def)

lemma unat_sub_32:
  fixes a :: size_t
  assumes "32 \<le> unat a"
  shows "unat (a - 32) = unat a - 32"
proof -
  have "(32 :: size_t) \<le> a" using assms by (simp add: word_le_nat_alt)
  then have "unat (a - 32) = unat a - unat (32 :: size_t)" by (rule unat_sub)
  then show ?thesis by simp
qed

lemma initializeHeap_fields:
  "heap_start (initializeHeap s) = heap_start s" "heap_end (initializeHeap s) = heap_end s"
  "heap_size (initializeHeap s) = heap_size s" "free_list (initializeHeap s) = heap_start s"
  "owns_memory (initializeHeap s) = owns_memory s"
  "blocks (initializeHeap s) (heap_start s)
     = \<lparr>size_blk = heap_size s - sizeof_MemoryBlock, is_free = True, next_blk = 0, prev_blk = 0\<rparr>"
  "stats (initializeHeap s)
     = \<lparr>total_heap_size = heap_size s, used_memory = 0,
        free_memory = heap_size s - sizeof_MemoryBlock, total_allocations = 0, total_frees = 0,
        block_count = 1, free_block_count = 1, coalesce_count = 0, split_count = 0\<rparr>"
  by (simp_all add: initializeHeap_def Let_def hdr_writes)

lemma initializeHeap_wf:
  assumes "valid_region s"
  shows "well_formed (initializeHeap s) [heap_start s]"
proof -
  from assms have v: "heap_start s \<noteq> 0" "heap_end s = heap_start s + heap_size s"
    "unat (heap_start s) + unat (heap_size s) < 2 ^ 64" "48 \<le> unat (heap_size s)"
    by (simp_all add: valid_region_def)
  have sz: "unat (heap_size s - 32) = unat (heap_size s) - 32"
    using v(4) by (intro unat_sub_32) simp
  have e: "unat (heap_end s) = unat (heap_start s) + unat (heap_size s)"
    unfolding v(2) using v(3) by (simp add: unat_word_ariths)
  have "valid_region (initializeHeap s)"
    using assms by (simp add: valid_region_def initializeHeap_fields)
  then show ?thesis
    using v(1,4) sz e
    by (simp add: well_formed_def initializeHeap_fields sizeof_MemoryBlock_def)
qed

lemma initializeHeap_accounting: "accounting (initializeHeap s) [heap_start s]"
  by (simp add: accounting_def initializeHeap_fields)

lemma my_calloc_accounting:
  assumes wf: "well_formed s bs" and acc: "accounting s bs"
  shows "\<exists>r. my_calloc s cnt sz = Some r
           \<and> (case r of Inl f \<Rightarrow> - 1 - 7 < cnt * sz
               | Inr (p, s', d) \<Rightarrow> \<exists>bs'. well_formed s' bs' \<and> accounting s' bs')"
proof (cases "cnt \<noteq> 0 \<and> (cnt * sz) div cnt \<noteq> sz")
  case True
  then have "my_calloc s cnt sz = Some (Inr (0, s, [CallocSizeOverflow]))"
    by (simp add: my_calloc_def Let_def)
  with wf acc show ?thesis by auto
next
  case False
  from my_malloc_accounting [OF wf acc, of "cnt * sz"] obtain p s1 d bs1 where
    m: "my_malloc s (cnt * sz) = Some (p, s1, d)" and 1: "well_formed s1 bs1"
    and 2: "accounting s1 bs1" by blast
  from False have c: "(cnt \<noteq> 0 \<and> cnt * sz div cnt \<noteq> sz) = False" by blast
  consider (null) "p = 0"
    | (overrun) "p \<noteq> 0" "size_blk (blocks s1 (fromData p)) < cnt * sz"
    | (zeroed) "p \<noteq> 0" "\<not> size_blk (blocks s1 (fromData p)) < cnt * sz" by blast
  then show ?thesis
  proof cases
    case null
    have "my_calloc s cnt sz = Some (Inr (p, s1, d))"
      unfolding my_calloc_def Let_def c using null by (simp add: m)
    with 1 2 show ?thesis by auto
  next
    case overrun
    have r: "my_calloc s cnt sz = Some (Inl BufferOverrun)"
      unfolding my_calloc_def Let_def c using overrun by (simp add: m)
    have "- 1 - 7 < cnt * sz"
    proof (rule ccontr)
      assume "\<not> - 1 - 7 < cnt * sz"
      then have "cnt * sz \<le> alignSize (cnt * sz)" by (rule alignSize_ge)
      also have "\<dots> \<le> max (alignSize (cnt * sz)) MIN_BLOCK_SIZE" by simp
      also have "\<dots> \<le> size_blk (blocks s1 (fromData p))"
        using wf m overrun(1) by (rule my_malloc_block_size)
      finally show False using overrun(2) by simp
    qed
    with r show ?thesis by simp
  next
    case zeroed
    let ?s' = "s1\<lparr>bytes := memset (bytes s1) p 0 (cnt * sz)\<rparr>"
    have "my_calloc s cnt sz = Some (Inr (p, ?s', d))"
      unfolding my_calloc_def Let_def c using zeroed by (simp add: m)
    moreover from 1 2 have "well_formed ?s' bs1 \<and> accounting ?s' bs1"
      by (simp add: well_formed_bytes accounting_bytes)
    ultimately show ?thesis by auto
  qed
qed

text \<open>
  On the relocation path of \<open>my_realloc\<close> the \<open>memcpy\<close> writes \<open>old_size\<close> bytes
  into the payload of the new block, which is longer than \<open>old_size\<close>: the copy
  stays inside the block.
\<close>

lemma alignSize_le: "alignSize n \<le> - 8"
proof -
  have "(n + 7) AND NOT 7 \<le> NOT 7" by (rule word_and_le1)
  then show ?thesis by (simp add: alignSize_def ALIGNMENT_def add.commute)
qed

lemma my_realloc_copy_inside:
  assumes wf: "well_formed s bs" and r: "relocates s q n"
    and m: "my_malloc s (alignSize n) = Some (p, s1, d)" and p: "p \<noteq> 0"
  shows "size_blk (blocks s (fromData q)) < size_blk (blocks s1 (fromData p))"
proof -
  from r have "size_blk (blocks s (fromData q)) < alignSize n"
    by (simp add: relocates_def not_le)
  also have "alignSize n \<le> alignSize (alignSize n)"
    using alignSize_le [of n] by (intro alignSize_ge) simp
  also have "\<dots> \<le> max (alignSize (alignSize n)) MIN_BLOCK_SIZE" by simp
  also have "\<dots> \<le> size_blk (blocks s1 (fromData p))"
    using wf m p by (rule my_malloc_block_size)
  finally show ?thesis .
qed

lemma my_realloc_accounting:
  assumes wf: "well_formed s bs" and acc: "accounting s bs"
    and q: "q = 0 \<or> fromData q \<in> set bs" and ne: "\<not> expands_in_place s q n"
  shows "\<exists>p s' d bs'. my_realloc s q n = Some (p, s', d) \<and> well_formed s' bs'
           \<and> accounting s' bs'"
proof -
  consider (null) "q = 0" | (zero) "q \<noteq> 0" "n = 0"
    | (invalid) "q \<noteq> 0" "n \<noteq> 0" "\<not> isValidPointer s q"
    | (fits) "q \<noteq> 0" "n \<noteq> 0" "isValidPointer s q"
        "alignSize n \<le> size_blk (blocks s (fromData q))"
    | (reloc) "relocates s q n"
    using ne by (auto simp add: relocates_def)
  then show ?thesis
  proof cases
    case null
    with my_malloc_accounting [OF wf acc, of n] show ?thesis
      by (auto simp add: my_realloc_def)
  next
    case zero
    from my_free_accounting [OF wf acc q] obtain bs' where
      "well_formed (fst (my_free s q)) bs' \<and> accounting (fst (my_free s q)) bs'" by blast
    moreover from zero have "my_realloc s q n = Some (0, fst (my_free s q), snd (my_free s q))"
      by (simp add: my_realloc_def case_prod_beta)
    ultimately show ?thesis by blast
  next
    case invalid
    then have "my_realloc s q n = Some (0, s, [ReallocInvalidPointer])"
      by (simp add: my_realloc_def)
    with wf acc show ?thesis by blast
  next
    case fits
    then have "my_realloc s q n = Some (q, s, [])"
      by (simp add: my_realloc_def Let_def)
    with wf acc show ?thesis by blast
  next
    case reloc
    then have q0: "q \<noteq> 0" by (simp add: relocates_def)
    from my_malloc_accounting [OF wf acc, of "alignSize n"] obtain p s1 d1 bs1 where
      m: "my_malloc s (alignSize n) = Some (p, s1, d1)" and 1: "well_formed s1 bs1"
      and 2: "accounting s1 bs1" and sub: "set bs \<subseteq> set bs1" by blast
    show ?thesis
    proof (cases "p = 0")
      case True
      with m have "my_realloc s q n = Some (0, s1, d1)"
        by (simp add: my_realloc_relocate [OF reloc])
      with 1 2 show ?thesis by blast
    next
      case False
      let ?s2 = "s1\<lparr>bytes := memcpy (bytes s1) p q (size_blk (blocks s (fromData q)))\<rparr>"
      from 1 2 have 3: "well_formed ?s2 bs1" "accounting ?s2 bs1"
        by (simp_all add: well_formed_bytes accounting_bytes)
      from q q0 sub have "q = 0 \<or> fromData q \<in> set bs1" by auto
      from my_free_accounting [OF 3 this] obtain bs' where
        "well_formed (fst (my_free ?s2 q)) bs' \<and> accounting (fst (my_free ?s2 q)) bs'" by blast
      moreover from m False
      have "my_realloc s q n = Some (p, fst (my_free ?s2 q), d1 @ snd (my_free ?s2 q))"
        by (simp add: my_realloc_relocate [OF reloc])
      ultimately show ?thesis by blast
    qed
  qed
qed

text \<open>
  C1, as the code has it. On a well-formed engine whose accounting holds, every call
  below returns, and after \<open>my_malloc\<close>, after \<open>my_free\<close> and \<open>my_realloc\<close> of a
  pointer that is null or the payload of a block of the chain (\<open>my_realloc\<close> on every
  path but the forward expansion), after \<open>my_calloc\<close> unless its \<open>memset\<close> runs past
  the block (which happens only for \<open>count * size > SIZE_MAX - 7\<close>) and after
  \<open>reset\<close>, the engine is well formed again and: \<open>used_memory\<close> is the sum of the
  sizes of the blocks that are not free; \<open>block_count\<close> and \<open>free_block_count\<close> are
  the chain's totals; \<open>free_memory\<close> is the sum of the sizes of the free blocks plus one
  header size for every block but one; and
  \<open>used_memory + free_memory + sizeof(MemoryBlock) = total_heap_size\<close>.
\<close>

theorem accounting_after_operations:
  assumes "well_formed s bs" and "accounting s bs"
  shows "(\<exists>p s' d bs'. my_malloc s sz = Some (p, s', d) \<and> well_formed s' bs'
            \<and> accounting s' bs')
       \<and> (\<exists>r. my_calloc s cnt sz = Some r
            \<and> (case r of Inl f \<Rightarrow> - 1 - 7 < cnt * sz
                | Inr (p, s', d) \<Rightarrow> \<exists>bs'. well_formed s' bs' \<and> accounting s' bs'))
       \<and> (q = 0 \<or> fromData q \<in> set bs \<longrightarrow>
            (\<exists>bs'. well_formed (fst (my_free s q)) bs' \<and> accounting (fst (my_free s q)) bs'))
       \<and> ((q = 0 \<or> fromData q \<in> set bs) \<and> \<not> expands_in_place s q sz \<longrightarrow>
            (\<exists>p s' d bs'. my_realloc s q sz = Some (p, s', d) \<and> well_formed s' bs'
              \<and> accounting s' bs'))
       \<and> well_formed (reset s) [heap_start s] \<and> accounting (reset s) [heap_start s]"
proof (intro conjI impI)
  show "\<exists>p s' d bs'. my_malloc s sz = Some (p, s', d) \<and> well_formed s' bs' \<and> accounting s' bs'"
    using my_malloc_accounting [OF assms, of sz] by blast
  show "\<exists>r. my_calloc s cnt sz = Some r
      \<and> (case r of Inl f \<Rightarrow> - 1 - 7 < cnt * sz
          | Inr (p, s', d) \<Rightarrow> \<exists>bs'. well_formed s' bs' \<and> accounting s' bs')"
    by (rule my_calloc_accounting [OF assms])
  show "\<exists>bs'. well_formed (fst (my_free s q)) bs' \<and> accounting (fst (my_free s q)) bs'"
    if "q = 0 \<or> fromData q \<in> set bs"
    using my_free_accounting [OF assms that] by blast
  show "\<exists>p s' d bs'. my_realloc s q sz = Some (p, s', d) \<and> well_formed s' bs'
      \<and> accounting s' bs'"
    if "(q = 0 \<or> fromData q \<in> set bs) \<and> \<not> expands_in_place s q sz"
    using my_realloc_accounting [OF assms, of q sz] that by blast
  from assms(1) have "valid_region s" by (simp add: well_formed_def)
  then show "well_formed (reset s) [heap_start s]"
    unfolding reset_def by (rule initializeHeap_wf)
  show "accounting (reset s) [heap_start s]"
    unfolding reset_def by (rule initializeHeap_accounting)
qed

lemma live_engine_accounting: "accounting live_engine [4096, 4232]"
  by (simp add: accounting_def live_engine_fields sizeof_MemoryBlock_def)

theorem accounting_after_operations_witness:
  "(\<exists>p s' d bs'. my_malloc live_engine 50 = Some (p, s', d) \<and> well_formed s' bs'
            \<and> accounting s' bs')
   \<and> (\<exists>r. my_calloc live_engine 2 50 = Some r
            \<and> (case r of Inl f \<Rightarrow> - 1 - 7 < (2 :: size_t) * 50
                | Inr (p, s', d) \<Rightarrow> \<exists>bs'. well_formed s' bs' \<and> accounting s' bs'))
   \<and> (\<exists>bs'. well_formed (fst (my_free live_engine 4128)) bs'
            \<and> accounting (fst (my_free live_engine 4128)) bs')
   \<and> (\<exists>p s' d bs'. my_realloc live_engine 4128 50 = Some (p, s', d) \<and> well_formed s' bs'
              \<and> accounting s' bs')
   \<and> well_formed (reset live_engine) [heap_start live_engine]
   \<and> accounting (reset live_engine) [heap_start live_engine]"
proof -
  have q: "(4128 :: ptr) = 0 \<or> fromData 4128 \<in> set [4096, 4232]"
    by (simp add: fromData_def sizeof_MemoryBlock_def)
  have ne: "\<not> expands_in_place live_engine 4128 50"
    by (simp add: expands_in_place_def fromData_def alignSize_def alloc_consts
        live_engine_fields)
  from accounting_after_operations [OF live_engine_wf live_engine_accounting, of 50 2 4128] q ne
  show ?thesis by blast
qed

text \<open>
  The accounting of the specification fails after the first allocation that splits:
  \<open>my_malloc(100)\<close> on the fresh engine leaves \<open>free_memory = 3960\<close> while the only
  free block has 3928 bytes, and \<open>104 + 3960 + 2 * 32\<close> is not \<open>4096\<close>.
\<close>

theorem spec_G6_counterexample:
  "spec_G6 fresh_engine [4096]
   \<and> my_malloc fresh_engine 100 = Some (4128, live_engine, [])
   \<and> chain (blocks live_engine) (free_list live_engine) [4096, 4232]
   \<and> free_memory (stats live_engine) = 3960
   \<and> free_sum (blocks live_engine) [4096, 4232] = 3928
   \<and> \<not> spec_G6 live_engine [4096, 4232]"
  by (simp add: my_malloc_fresh_100 spec_G6_def fresh_engine_fields live_engine_fields
      sizeof_MemoryBlock_def)

text \<open>
  The forward expansion of \<open>my_realloc\<close> grows a live block without touching
  \<open>used_memory\<close>: on the engine with one live block of 104 bytes, \<open>my_realloc(p, 200)\<close>
  leaves a live block of 4064 bytes and \<open>used_memory = 104\<close>, and freeing the block then
  wraps \<open>used_memory\<close> around.
\<close>

lemma forward_expand_breaks_used_memory:
  "map_option (\<lambda>(p, s', d). (p, size_blk (blocks s' 4096), is_free (blocks s' 4096),
       used_memory (stats s'), used_memory (stats (fst (my_free s' p)))))
     (my_realloc live_engine 4128 200) = Some (4128, 4064, False, 104, 104 - 4064)"
  by (simp add: my_realloc_def my_free_unfold isValidPointer_def fromData_def alignSize_def
      alloc_consts live_engine_fields Let_def hdr_writes release_frame coalesce_next_eq
      coalesce_prev_eq merge_blocks_frame)

section \<open>Freeing everything that was allocated\<close>
























section \<open>The header view and the bytes of memory\<close>

text \<open>
  The two views of memory agree on a well-formed engine: the header read at a block of
  the chain is the header its 32 bytes hold. Initialisation makes it so, and
  \<open>my_malloc\<close>, \<open>my_calloc\<close> (when it returns), \<open>my_free\<close> and \<open>my_realloc\<close> of
  a null pointer or of the payload of a chain block keep it so: every header write
  goes to a block of the chain or to the block a split creates, and every write of
  payload bytes stays inside the payload of one block.
\<close>

lemma store64_bytes:
  "store64 m a v a = ucast v"
  "store64 m a v (a + 1) = ucast (drop_bit 8 v)"
  "store64 m a v (a + 2) = ucast (drop_bit 16 v)"
  "store64 m a v (a + 3) = ucast (drop_bit 24 v)"
  "store64 m a v (a + 4) = ucast (drop_bit 32 v)"
  "store64 m a v (a + 5) = ucast (drop_bit 40 v)"
  "store64 m a v (a + 6) = ucast (drop_bit 48 v)"
  "store64 m a v (a + 7) = ucast (drop_bit 56 v)"
  by (simp_all add: store64_def)

lemma byte_split:
  fixes v :: "64 word"
  shows "ucast (ucast v :: 8 word) OR push_bit 8 (drop_bit 8 v) = v"
proof (rule bit_eqI)
  fix n
  assume "possible_bit TYPE(64 word) n"
  show "bit (ucast (ucast v :: 8 word) OR push_bit 8 (drop_bit 8 v)) n = bit v n"
    by (cases "n < 8") (auto simp add: bit_simps not_less dest: bit_imp_le_length)
qed

lemma load64_store64: "load64 (store64 m a v) a = v"
proof -
  have "load64 (store64 m a v) a =
      ucast (ucast v :: 8 word) OR push_bit 8 (ucast (ucast (drop_bit 8 v) :: 8 word)
      OR push_bit 8 (ucast (ucast (drop_bit 16 v) :: 8 word)
      OR push_bit 8 (ucast (ucast (drop_bit 24 v) :: 8 word)
      OR push_bit 8 (ucast (ucast (drop_bit 32 v) :: 8 word)
      OR push_bit 8 (ucast (ucast (drop_bit 40 v) :: 8 word)
      OR push_bit 8 (ucast (ucast (drop_bit 48 v) :: 8 word)
      OR push_bit 8 (ucast (ucast (drop_bit 56 v) :: 8 word))))))))"
    unfolding load64_def store64_bytes
    by (simp add: push_bit_or flip: push_bit_add)
  also have "\<dots> = v"
  proof -
    have 7: "ucast (ucast (drop_bit 56 v) :: 8 word) = (drop_bit 56 v :: 64 word)"
      by (rule bit_eqI) (auto simp add: bit_simps dest: bit_imp_le_length)
    have s: "ucast (ucast (drop_bit k v) :: 8 word) OR push_bit 8 (drop_bit (k + 8) v)
        = (drop_bit k v :: 64 word)" for k
      using byte_split [of "drop_bit k v"] by (simp add: drop_bit_drop_bit add.commute)
    show ?thesis
      unfolding 7 using s [of 48] s [of 40] s [of 32] s [of 24] s [of 16] s [of 8] byte_split [of v]
      by simp
  qed
  finally show ?thesis .
qed


lemma far_sym: "far x w \<Longrightarrow> far w x"
  by (simp add: far_def)

lemma far_neq: "far x w \<Longrightarrow> x \<noteq> w"
  by (auto simp add: far_def)

lemma far_bytes:
  fixes x w j k :: ptr
  assumes f: "far x w" and j: "j < 32" and k: "k < 32"
  shows "x + j \<noteq> w + k"
proof
  assume e: "x + j = w + k"
  show False
  proof (cases "j \<le> k")
    case True
    from e have "x - w = k - j" by (simp add: algebra_simps)
    moreover have "unat (k - j) = unat k - unat j" using True by (rule unat_sub)
    ultimately have "unat (x - w) < 32" using k by (simp add: word_less_nat_alt)
    with f show False by (simp add: far_def word_le_nat_alt)
  next
    case False
    then have le: "k \<le> j" by simp
    from e have "w - x = j - k" by (simp add: algebra_simps)
    moreover have "unat (j - k) = unat j - unat k" using le by (rule unat_sub)
    ultimately have "unat (w - x) < 32" using j by (simp add: word_less_nat_alt)
    with f show False by (simp add: far_def word_le_nat_alt)
  qed
qed

lemma store64_other:
  assumes "\<And>i. i < 8 \<Longrightarrow> y \<noteq> a + i"
  shows "store64 m a v y = m y"
proof -
  have "\<not> y - a < 8"
  proof
    assume "y - a < 8"
    from assms [OF this] show False by simp
  qed
  then show ?thesis by (simp add: store64_def)
qed

lemma header_at_cong:
  assumes "\<And>j. j < 32 \<Longrightarrow> m' (x + j) = m (x + j)"
  shows "header_at m' x = header_at m x"
proof -
  have 0: "m' x = m x" using assms [of 0] by simp
  have r: "m' (x + j) = m (x + j)" if "j < 32" for j using assms that by blast
  show ?thesis
    unfolding header_at_def load64_def
    by (simp add: 0 r add.assoc)
qed


lemma lt8_cases:
  fixes i :: ptr
  assumes "i < 8"
  shows "i = 0 \<or> i = 1 \<or> i = 2 \<or> i = 3 \<or> i = 4 \<or> i = 5 \<or> i = 6 \<or> i = 7"
proof -
  from assms have "unat i < 8" by (simp add: word_less_nat_alt)
  then have "unat i = 0 \<or> unat i = 1 \<or> unat i = 2 \<or> unat i = 3 \<or> unat i = 4
      \<or> unat i = 5 \<or> unat i = 6 \<or> unat i = 7" by arith
  then show ?thesis by (auto simp add: word_unat_eq_iff)
qed

lemma load64_cong:
  assumes "\<And>i. i < 8 \<Longrightarrow> m' (a + i) = m (a + i)"
  shows "load64 m' a = load64 m a"
proof -
  have 0: "m' a = m a" using assms [of 0] by simp
  show ?thesis unfolding load64_def by (simp add: 0 assms)
qed

lemma store64_field:
  fixes w :: ptr
  assumes "i < 8"
  shows "store64 m w v (w + 16 + i) = m (w + 16 + i)"
    and "store64 m w v (w + 24 + i) = m (w + 24 + i)"
    and "store64 m (w + 16) v (w + i) = m (w + i)"
    and "store64 m (w + 16) v (w + 24 + i) = m (w + 24 + i)"
    and "store64 m (w + 24) v (w + i) = m (w + i)"
    and "store64 m (w + 24) v (w + 16 + i) = m (w + 16 + i)"
  using lt8_cases [OF assms] by (auto simp add: store64_def)

lemma store64_flag:
  fixes w :: ptr
  shows "store64 m w v (w + 8) = m (w + 8)"
    and "store64 m (w + 16) v (w + 8) = m (w + 8)"
    and "store64 m (w + 24) v (w + 8) = m (w + 8)"
  by (simp_all add: store64_def)

lemma byte_field:
  fixes w :: ptr
  assumes "i < 8"
  shows "(m(w + 8 := c)) (w + i) = m (w + i)"
    and "(m(w + 8 := c)) (w + 16 + i) = m (w + 16 + i)"
    and "(m(w + 8 := c)) (w + 24 + i) = m (w + 24 + i)"
  using lt8_cases [OF assms] by auto

lemma header_at_size: "header_at (store64 m w v) w = (header_at m w)\<lparr>size_blk := v\<rparr>"
proof -
  have "load64 (store64 m w v) (w + 16) = load64 m (w + 16)"
    by (rule load64_cong) (simp only: store64_field)
  moreover have "load64 (store64 m w v) (w + 24) = load64 m (w + 24)"
    by (rule load64_cong) (simp only: store64_field)
  ultimately show ?thesis
    by (simp add: header_at_def load64_store64 store64_flag)
qed

lemma header_at_is_free: "header_at (m(w + 8 := c)) w = (header_at m w)\<lparr>is_free := (c \<noteq> 0)\<rparr>"
proof -
  have "load64 (m(w + 8 := c)) w = load64 m w"
    by (rule load64_cong) (simp only: byte_field)
  moreover have "load64 (m(w + 8 := c)) (w + 16) = load64 m (w + 16)"
    by (rule load64_cong) (simp only: byte_field)
  moreover have "load64 (m(w + 8 := c)) (w + 24) = load64 m (w + 24)"
    by (rule load64_cong) (simp only: byte_field)
  ultimately show ?thesis
    by (simp add: header_at_def)
qed

lemma header_at_next: "header_at (store64 m (w + 16) v) w = (header_at m w)\<lparr>next_blk := v\<rparr>"
proof -
  have "load64 (store64 m (w + 16) v) w = load64 m w"
    by (rule load64_cong) (simp only: store64_field)
  moreover have "load64 (store64 m (w + 16) v) (w + 24) = load64 m (w + 24)"
    by (rule load64_cong) (simp only: store64_field)
  ultimately show ?thesis
    by (simp add: header_at_def load64_store64 store64_flag)
qed

lemma header_at_prev: "header_at (store64 m (w + 24) v) w = (header_at m w)\<lparr>prev_blk := v\<rparr>"
proof -
  have "load64 (store64 m (w + 24) v) w = load64 m w"
    by (rule load64_cong) (simp only: store64_field)
  moreover have "load64 (store64 m (w + 24) v) (w + 16) = load64 m (w + 16)"
    by (rule load64_cong) (simp only: store64_field)
  ultimately show ?thesis
    by (simp add: header_at_def load64_store64 store64_flag)
qed


lemma lt8_off:
  fixes i :: ptr
  assumes "i < 8"
  shows "i < 32" and "16 + i < 32" and "24 + i < 32"
  using lt8_cases [OF assms] by auto

lemma header_at_far:
  assumes f: "far x w"
  shows "header_at (store64 m w v) x = header_at m x"
    and "header_at (m(w + 8 := c)) x = header_at m x"
    and "header_at (store64 m (w + 16) v) x = header_at m x"
    and "header_at (store64 m (w + 24) v) x = header_at m x"
proof -
  show "header_at (store64 m w v) x = header_at m x"
  proof (rule header_at_cong)
    fix j :: ptr
    assume j: "j < 32"
    show "store64 m w v (x + j) = m (x + j)"
      by (rule store64_other) (rule far_bytes [OF f j lt8_off(1)])
  qed
  show "header_at (m(w + 8 := c)) x = header_at m x"
  proof (rule header_at_cong)
    fix j :: ptr
    assume j: "j < 32"
    have "x + j \<noteq> w + 8" by (rule far_bytes [OF f j]) simp
    then show "(m(w + 8 := c)) (x + j) = m (x + j)" by simp
  qed
  show "header_at (store64 m (w + 16) v) x = header_at m x"
  proof (rule header_at_cong)
    fix j :: ptr
    assume j: "j < 32"
    show "store64 m (w + 16) v (x + j) = m (x + j)"
    proof (rule store64_other)
      fix i :: ptr
      assume "i < 8"
      from far_bytes [OF f j lt8_off(2) [OF this]]
      show "x + j \<noteq> w + 16 + i" by (simp add: add.assoc)
    qed
  qed
  show "header_at (store64 m (w + 24) v) x = header_at m x"
  proof (rule header_at_cong)
    fix j :: ptr
    assume j: "j < 32"
    show "store64 m (w + 24) v (x + j) = m (x + j)"
    proof (rule store64_other)
      fix i :: ptr
      assume "i < 8"
      from far_bytes [OF f j lt8_off(3) [OF this]]
      show "x + j \<noteq> w + 24 + i" by (simp add: add.assoc)
    qed
  qed
qed

lemma coherent_at_write:
  assumes c: "coherent_at s x" and xw: "x = w \<or> far x w"
  shows "coherent_at (write_size s w v) x"
    and "coherent_at (write_is_free s w f) x"
    and "coherent_at (write_next s w v) x"
    and "coherent_at (write_prev s w v) x"
proof -
  from xw show "coherent_at (write_size s w v) x"
  proof
    assume "x = w"
    with c show ?thesis by (simp add: coherent_at_def set_size_def header_at_size)
  next
    assume f: "far x w"
    with c far_neq [OF f] show ?thesis
      by (simp add: coherent_at_def set_size_def header_at_far)
  qed
  from xw show "coherent_at (write_is_free s w f) x"
  proof
    assume "x = w"
    with c show ?thesis by (simp add: coherent_at_def set_is_free_def header_at_is_free)
  next
    assume f: "far x w"
    with c far_neq [OF f] show ?thesis
      by (simp add: coherent_at_def set_is_free_def header_at_far)
  qed
  from xw show "coherent_at (write_next s w v) x"
  proof
    assume "x = w"
    with c show ?thesis by (simp add: coherent_at_def set_next_def header_at_next)
  next
    assume f: "far x w"
    with c far_neq [OF f] show ?thesis
      by (simp add: coherent_at_def set_next_def header_at_far)
  qed
  from xw show "coherent_at (write_prev s w v) x"
  proof
    assume "x = w"
    with c show ?thesis by (simp add: coherent_at_def set_prev_def header_at_prev)
  next
    assume f: "far x w"
    with c far_neq [OF f] show ?thesis
      by (simp add: coherent_at_def set_prev_def header_at_far)
  qed
qed

lemma coherent_at_new:
  "coherent_at (write_prev (write_next (write_is_free (write_size s n a) n f) n c) n d) n"
proof -
  have "header_at (bytes (write_prev (write_next (write_is_free (write_size s n a) n f) n c) n d)) n
      = (header_at (bytes s) n)\<lparr>size_blk := a, is_free := f, next_blk := c, prev_blk := d\<rparr>"
    by (simp add: header_at_size header_at_is_free header_at_next header_at_prev)
  moreover have "blocks (write_prev (write_next (write_is_free (write_size s n a) n f) n c) n d) n
      = (blocks s n)\<lparr>size_blk := a, is_free := f, next_blk := c, prev_blk := d\<rparr>"
    by (simp add: hdr_writes)
  ultimately show ?thesis by (simp add: coherent_at_def)
qed

lemma coherent_at_stats [simp]: "coherent_at (s\<lparr>stats := st\<rparr>) x = coherent_at s x"
  by (simp add: coherent_at_def)


lemma far_nat:
  fixes x w :: ptr
  assumes "unat x + 32 \<le> unat w" and "unat w + 32 \<le> e" and "e < 2 ^ 64"
  shows "far x w"
proof -
  have le: "x \<le> w" using assms(1) by (simp add: word_le_nat_alt)
  then have 1: "unat (w - x) = unat w - unat x" by (rule unat_sub)
  have nle: "\<not> unat w \<le> unat x" using assms(1) by simp
  have "unat (x - w) = unat x + 2 ^ 64 - unat w"
    using nle by (simp add: unat_sub_if_size word_size)
  with 1 assms have "32 \<le> unat (x - w) \<and> 32 \<le> unat (w - x)" by simp arith
  then show ?thesis by (simp add: far_def word_le_nat_alt)
qed

lemma tiles_far_aux:
  assumes t: "tiles h a (x # ys) e" and w: "w \<in> set ys" and e: "e < 2 ^ 64"
  shows "far x w"
proof -
  from t have t': "tiles h (unat x + 32 + unat (size_blk (h x))) ys e" by simp
  from tiles_mem [OF t' w] have "unat x + 32 \<le> unat w" and "unat w + 32 \<le> e" by simp_all
  then show ?thesis using e by (rule far_nat)
qed

lemma tiles_far:
  assumes t: "tiles h a bs e" and e: "e < 2 ^ 64"
    and x: "x \<in> set bs" and w: "w \<in> set bs" and ne: "x \<noteq> w"
  shows "far x w"
proof -
  from x obtain as cs where bs: "bs = as @ x # cs" by (auto dest: split_list)
  from w ne bs have "w \<in> set as \<or> w \<in> set cs" by auto
  then show ?thesis
  proof
    assume "w \<in> set cs"
    moreover from t bs obtain m where "tiles h m (x # cs) e" by (auto simp add: tiles_append)
    ultimately show ?thesis using e by (intro tiles_far_aux)
  next
    assume "w \<in> set as"
    then obtain as1 as2 where as: "as = as1 @ w # as2" by (auto dest: split_list)
    from t bs as obtain m where "tiles h m (w # as2 @ x # cs) e"
      by (auto simp add: tiles_append)
    then have "far w x" by (rule tiles_far_aux [OF _ _ e]) simp
    then show ?thesis by (rule far_sym)
  qed
qed

lemma well_formed_far:
  assumes "well_formed s bs" and "x \<in> set bs" and "w \<in> set bs" and "x \<noteq> w"
  shows "far x w"
  using well_formedD(2) [OF assms(1)] well_formedD(4) [OF assms(1)] assms(2,3,4)
  by (rule tiles_far)

lemma release_coherent:
  assumes wf: "well_formed s bs" and c: "coherent s bs" and b: "b \<in> set bs"
  shows "coherent (release s b) bs"
  unfolding coherent_def
proof
  fix x
  assume x: "x \<in> set bs"
  have "x = b \<or> far x b" using well_formed_far [OF wf x b] by blast
  moreover from c x have "coherent_at (updateStatsAfterFree s (size_blk (blocks s b))) x"
    by (simp add: coherent_def updateStatsAfterFree_def)
  ultimately show "coherent_at (release s b) x"
    unfolding release_def Let_def by (rule coherent_at_write(2) [rotated])
qed


lemma coherent_at_if:
  "coherent_at (if c then s else t) x = (if c then coherent_at s x else coherent_at t x)"
  by simp

lemma merge_blocks_writes:
  "merge_blocks s a c =
     (let e = next_blk (blocks s c);
          s2 = write_next (write_size s a (size_blk (blocks s a)
                 + (sizeof_MemoryBlock + size_blk (blocks s c)))) a e;
          s3 = (if e \<noteq> 0 then write_prev s2 e a else s2)
      in s3\<lparr>stats := (stats s)\<lparr>block_count := block_count (stats s) - 1,
                                 free_block_count := free_block_count (stats s) - 1,
                                 coalesce_count := coalesce_count (stats s) + 1\<rparr>\<rparr>)"
  by (simp add: merge_blocks_def Let_def hdr_writes)

lemma merge_blocks_coherent:
  assumes wf: "well_formed s (xs @ a # c # ys)" and c: "coherent s (xs @ a # c # ys)"
  shows "coherent (merge_blocks s a c) (xs @ a # ys)"
  unfolding coherent_def
proof
  fix x
  assume x: "x \<in> set (xs @ a # ys)"
  then have xm: "x \<in> set (xs @ a # c # ys)" by auto
  have am: "a \<in> set (xs @ a # c # ys)" by simp
  let ?e = "next_blk (blocks s c)"
  let ?s2 = "write_next (write_size s a (size_blk (blocks s a)
                 + (sizeof_MemoryBlock + size_blk (blocks s c)))) a ?e"
  from c xm have c0: "coherent_at s x" unfolding coherent_def by blast
  have xa: "x = a \<or> far x a" using well_formed_far [OF wf xm am] by blast
  have c2: "coherent_at ?s2 x"
    by (rule coherent_at_write(3) [OF coherent_at_write(1) [OF c0 xa] xa])
  from wf have "well_formed s ((xs @ [a]) @ c # ys)" by simp
  from well_formed_next(1) [OF this]
  have e: "?e = (case ys of [] \<Rightarrow> 0 | d # _ \<Rightarrow> d)" .
  have c3: "coherent_at (if ?e \<noteq> 0 then write_prev ?s2 ?e a else ?s2) x"
  proof (cases "?e = 0")
    case True
    with c2 show ?thesis by simp
  next
    case False
    with e have "?e \<in> set ys" by (cases ys) auto
    then have "?e \<in> set (xs @ a # c # ys)" by simp
    from well_formed_far [OF wf xm this] have "x = ?e \<or> far x ?e" by blast
    from coherent_at_write(4) [OF c2 this] False show ?thesis by simp
  qed
  then show "coherent_at (merge_blocks s a c) x"
    by (simp add: merge_blocks_writes Let_def)
qed

lemma splitBlock_writes:
  assumes ws: "will_split (blocks s) b need" and nb: "n \<noteq> b"
    and n: "n = b + sizeof_MemoryBlock + need"
  shows "snd (splitBlock s b need) =
     (let d = next_blk (blocks s b);
          s4 = write_prev (write_next (write_is_free (write_size s n
                 (size_blk (blocks s b) - need - sizeof_MemoryBlock)) n True) n d) n b;
          s5 = (if d \<noteq> 0 then write_prev s4 d n else s4)
      in (write_next (write_size s5 b need) b n)
           \<lparr>stats := (stats s)\<lparr>block_count := block_count (stats s) + 1,
                               free_block_count := free_block_count (stats s) + 1,
                               split_count := split_count (stats s) + 1\<rparr>\<rparr>)"
proof -
  have 1: "next_blk (set_is_free (set_size (blocks s) n v) n True b) = next_blk (blocks s b)" for v
    using nb by (simp add: hdr_writes)
  have 2: "next_blk (set_prev (set_next h n d) n b n) = d" for h d
    by (simp add: hdr_writes)
  show ?thesis
    using ws unfolding splitBlock_def Let_def will_split_def n [symmetric]
    by (simp add: 1 2)
qed


lemma take_block_coherent:
  assumes wf: "well_formed s (xs @ b # ys)" and fit: "fits (blocks s) need b"
    and need: "16 \<le> unat need" and c: "coherent s (xs @ b # ys)"
  shows "coherent (take_block s b need) (chain_after_take (blocks s) need xs b ys)"
proof (cases "will_split (blocks s) b need")
  case False
  have t: "take_block s b need = write_is_free s b False"
    using False by (simp add: take_block_def will_split_def splitBlock_no_split)
  have bm: "b \<in> set (xs @ b # ys)" by simp
  show ?thesis
    unfolding coherent_def
  proof
    fix x
    assume "x \<in> set (chain_after_take (blocks s) need xs b ys)"
    with False have xm: "x \<in> set (xs @ b # ys)" by (simp add: chain_after_take_def)
    from c xm have c0: "coherent_at s x" unfolding coherent_def by blast
    have "x = b \<or> far x b" using well_formed_far [OF wf xm bm] by blast
    from coherent_at_write(2) [OF c0 this] show "coherent_at (take_block s b need) x"
      unfolding t .
  qed
next
  case True
  define n where "n = b + sizeof_MemoryBlock + need"
  let ?d = "next_blk (blocks s b)"
  let ?v = "size_blk (blocks s b) - need - sizeof_MemoryBlock"
  let ?s4 = "write_prev (write_next (write_is_free (write_size s n ?v) n True) n ?d) n b"
  let ?s5 = "if ?d \<noteq> 0 then write_prev ?s4 ?d n else ?s4"
  let ?s7 = "write_next (write_size ?s5 b need) b n"
  have ch: "chain_after_take (blocks s) need xs b ys = xs @ b # n # ys"
    using True by (simp add: chain_after_take_def n_def)
  have wf': "well_formed (take_block s b need) (xs @ b # n # ys)"
    using take_block_wf [OF wf fit need] unfolding ch .
  from well_formed_distinct [OF wf'] have nb: "n \<noteq> b" and nx: "n \<notin> set xs" and ny: "n \<notin> set ys"
    by auto
  have fr: "far x w" if "x \<in> set (xs @ b # n # ys)" "w \<in> set (xs @ b # n # ys)" "x \<noteq> w" for x w
    using wf' that by (rule well_formed_far)
  have d: "?d = (case ys of [] \<Rightarrow> 0 | e # _ \<Rightarrow> e)" by (rule well_formed_next(1) [OF wf])
  have dm: "?d \<in> set ys" if "?d \<noteq> 0" using that d by (cases ys) auto
  have t: "take_block s b need = write_is_free (?s7\<lparr>stats := (stats s)
      \<lparr>block_count := block_count (stats s) + 1,
        free_block_count := free_block_count (stats s) + 1,
        split_count := split_count (stats s) + 1\<rparr>\<rparr>) b False"
    unfolding take_block_def Let_def splitBlock_writes [OF True nb n_def] ..
  have step: "coherent_at (take_block s b need) x"
    if c4: "coherent_at ?s4 x" and xm: "x \<in> set (xs @ b # n # ys)" for x
  proof -
    have xb: "x = b \<or> far x b" using fr [OF xm, of b] by auto
    have c5: "coherent_at ?s5 x"
    proof (cases "?d = 0")
      case True
      with c4 show ?thesis by simp
    next
      case False
      from dm [OF False] have "?d \<in> set (xs @ b # n # ys)" by simp
      from fr [OF xm this] have "x = ?d \<or> far x ?d" by blast
      from coherent_at_write(4) [OF c4 this] False show ?thesis by simp
    qed
    have "coherent_at ?s7 x"
      by (rule coherent_at_write(3) [OF coherent_at_write(1) [OF c5 xb] xb])
    then have "coherent_at (?s7\<lparr>stats := (stats s)
      \<lparr>block_count := block_count (stats s) + 1,
        free_block_count := free_block_count (stats s) + 1,
        split_count := split_count (stats s) + 1\<rparr>\<rparr>) x" by simp
    from coherent_at_write(2) [OF this xb] show ?thesis unfolding t .
  qed
  show ?thesis
    unfolding coherent_def ch
  proof
    fix x
    assume xm: "x \<in> set (xs @ b # n # ys)"
    show "coherent_at (take_block s b need) x"
    proof (cases "x = n")
      case True
      have "coherent_at ?s4 n" by (rule coherent_at_new)
      then show ?thesis using xm unfolding True by (rule step)
    next
      case False
      with xm have xo: "x \<in> set (xs @ b # ys)" by auto
      from c xo have c0: "coherent_at s x" unfolding coherent_def by blast
      have xn: "x = n \<or> far x n" using fr [OF xm, of n] False by auto
      have "coherent_at ?s4 x"
        by (rule coherent_at_write(4) [OF coherent_at_write(3) [OF coherent_at_write(2)
              [OF coherent_at_write(1) [OF c0 xn] xn] xn] xn])
      then show ?thesis using xm by (rule step)
    qed
  qed
qed


lemma tiles_order_aux:
  assumes t: "tiles h a (x # ys) e" and w: "w \<in> set ys"
  shows "unat x + 32 + unat (size_blk (h x)) \<le> unat w"
proof -
  from t have t': "tiles h (unat x + 32 + unat (size_blk (h x))) ys e" by simp
  from tiles_mem [OF t' w] show ?thesis by simp
qed

lemma tiles_order:
  assumes t: "tiles h a bs e" and x: "x \<in> set bs" and w: "w \<in> set bs" and ne: "x \<noteq> w"
  shows "unat x + 32 + unat (size_blk (h x)) \<le> unat w
       \<or> unat w + 32 + unat (size_blk (h w)) \<le> unat x"
proof -
  from x obtain as cs where bs: "bs = as @ x # cs" by (auto dest: split_list)
  from w ne bs have "w \<in> set as \<or> w \<in> set cs" by auto
  then show ?thesis
  proof
    assume wc: "w \<in> set cs"
    from t bs obtain m where "tiles h m (x # cs) e" by (auto simp add: tiles_append)
    from tiles_order_aux [OF this wc] show ?thesis by blast
  next
    assume "w \<in> set as"
    then obtain as1 as2 where as: "as = as1 @ w # as2" by (auto dest: split_list)
    from t bs as obtain m where "tiles h m (w # as2 @ x # cs) e"
      by (auto simp add: tiles_append)
    from tiles_order_aux [OF this, of x] show ?thesis by simp
  qed
qed

lemma payload_bytes_outside:
  assumes wf: "well_formed s bs" and b: "b \<in> set bs" and x: "x \<in> set bs"
    and len: "len \<le> size_blk (blocks s b)" and j: "j < 32"
  shows "\<not> (x + j) - getData b < len"
proof -
  note wfd = well_formedD [OF wf]
  from tiles_mem [OF wfd(2) b] have tb: "unat b + 32 + unat (size_blk (blocks s b)) \<le> unat (heap_end s)"
    by simp
  from tiles_mem [OF wfd(2) x] have tx: "unat x + 32 + unat (size_blk (blocks s x)) \<le> unat (heap_end s)"
    by simp
  have uj: "unat j < 32" using j by (simp add: word_less_nat_alt)
  have ul: "unat len \<le> unat (size_blk (blocks s b))" using len by (simp add: word_le_nat_alt)
  have up: "unat (getData b) = unat b + 32"
    unfolding getData_def sizeof_MemoryBlock_def using tb wfd(4) by (intro unat_add_32) simp
  have ux: "unat (x + j) = unat x + unat j"
    using tx wfd(4) uj by (simp add: unat_word_ariths)
  have d: "unat ((x + j) - getData b)
      = (if unat (getData b) \<le> unat (x + j) then unat (x + j) - unat (getData b)
         else unat (x + j) + 2 ^ 64 - unat (getData b))"
    by (simp add: unat_sub_if_size word_size)
  have "unat len \<le> unat ((x + j) - getData b)"
  proof (cases "x = b")
    case True
    then show ?thesis using d up ux uj ul tb wfd(4) by simp
  next
    case False
    from tiles_order [OF wfd(2) x b False]
    show ?thesis
    proof
      assume "unat x + 32 + unat (size_blk (blocks s x)) \<le> unat b"
      then show ?thesis using d up ux uj ul tb wfd(4) by simp
    next
      assume "unat b + 32 + unat (size_blk (blocks s b)) \<le> unat x"
      then show ?thesis using d up ux uj ul tb tx wfd(4) by simp
    qed
  qed
  then show ?thesis by (simp add: word_less_nat_alt)
qed

lemma payload_write_coherent:
  assumes wf: "well_formed s bs" and c: "coherent s bs" and b: "b \<in> set bs"
    and len: "len \<le> size_blk (blocks s b)"
    and fr: "\<And>a. \<not> a - getData b < len \<Longrightarrow> m a = bytes s a"
  shows "coherent (s\<lparr>bytes := m\<rparr>) bs"
  unfolding coherent_def
proof
  fix x
  assume x: "x \<in> set bs"
  have "header_at m x = header_at (bytes s) x"
  proof (rule header_at_cong)
    fix j :: ptr
    assume "j < 32"
    from fr [OF payload_bytes_outside [OF wf b x len this]]
    show "m (x + j) = bytes s (x + j)" .
  qed
  moreover from c x have "coherent_at s x" unfolding coherent_def by blast
  ultimately show "coherent_at (s\<lparr>bytes := m\<rparr>) x" by (simp add: coherent_at_def)
qed


lemma coherent_stats [simp]: "coherent (s\<lparr>stats := st\<rparr>) bs = coherent s bs"
  by (simp add: coherent_def)

lemma initializeHeap_coherent: "coherent (initializeHeap s) [heap_start s]"
proof -
  have "coherent_at (write_prev (write_next (write_is_free (write_size
      (s\<lparr>free_list := heap_start s\<rparr>) (heap_start s) (heap_size s - sizeof_MemoryBlock))
      (heap_start s) True) (heap_start s) 0) (heap_start s) 0) (heap_start s)"
    by (rule coherent_at_new)
  then show ?thesis by (simp add: coherent_def initializeHeap_def Let_def)
qed

lemma well_formed_unique: "well_formed s bs \<Longrightarrow> well_formed s cs \<Longrightarrow> bs = cs"
  using chain_unique well_formed_chain by blast

lemma free_state_coherent:
  assumes wf: "well_formed s (xs @ b # ys)" and c: "coherent s (xs @ b # ys)"
  shows "coherent (free_state s xs b ys) (chain_after_free (blocks s) xs b ys)"
proof -
  let ?s2 = "release s b"
  let ?s3 = "merge_next s ?s2 b ys"
  let ?r = "rest_after_free (blocks s) ys"
  have wf2: "well_formed ?s2 (xs @ b # ys)" using wf by (rule release_wf)
  have c2: "coherent ?s2 (xs @ b # ys)" using wf c by (rule release_coherent) simp
  have wf3: "well_formed ?s3 (xs @ b # ?r)" by (rule coalesce_next_release(2) [OF wf])
  have c3: "coherent ?s3 (xs @ b # ?r)"
  proof (cases ys)
    case Nil
    with c2 show ?thesis by (simp add: merge_next_def rest_after_free_def)
  next
    case (Cons d ds)
    show ?thesis
    proof (cases "is_free (blocks s d)")
      case True
      from merge_blocks_coherent [OF wf2 [unfolded Cons] c2 [unfolded Cons]] True Cons
      show ?thesis by (simp add: merge_next_def rest_after_free_def)
    next
      case False
      with c2 Cons show ?thesis by (simp add: merge_next_def rest_after_free_def)
    qed
  qed
  show ?thesis
  proof (cases "xs \<noteq> [] \<and> is_free (blocks s (last xs))")
    case True
    then obtain as a where xs: "xs = as @ [a]" by (cases xs rule: rev_cases) auto
    from wf3 c3 have "well_formed ?s3 (as @ a # b # ?r)" "coherent ?s3 (as @ a # b # ?r)"
      by (simp_all add: xs)
    from merge_blocks_coherent [OF this] True
    show ?thesis by (simp add: free_state_def merge_prev_def chain_after_free_def xs)
  next
    case False
    with c3 show ?thesis by (auto simp add: free_state_def merge_prev_def chain_after_free_def)
  qed
qed

lemma my_free_coherent:
  assumes wf: "well_formed s bs" and c: "coherent s bs"
    and p: "p = 0 \<or> fromData p \<in> set bs"
  shows "\<exists>bs'. well_formed (fst (my_free s p)) bs' \<and> coherent (fst (my_free s p)) bs'"
proof (cases "fst (my_free s p) = s")
  case True
  with wf c show ?thesis by auto
next
  case False
  then have g: "p \<noteq> 0" "\<not> is_free (blocks s (fromData p))"
    by (auto simp add: my_free_unfold split: if_splits)
  with p obtain xs ys where bs: "bs = xs @ fromData p # ys"
    by (auto dest: split_list)
  note fw = my_free_wf [OF wf [unfolded bs] g(2), unfolded getData_fromData]
  from free_state_coherent [OF wf [unfolded bs] c [unfolded bs]] fw
  show ?thesis by auto
qed

lemma my_malloc_coherent:
  assumes wf: "well_formed s bs" and c: "coherent s bs"
  shows "\<exists>p s' d bs'. my_malloc s n = Some (p, s', d) \<and> well_formed s' bs' \<and> coherent s' bs'
           \<and> (p \<noteq> 0 \<longrightarrow> fromData p \<in> set bs') \<and> set bs \<subseteq> set bs'"
proof (cases "n = 0")
  case True
  with wf c show ?thesis by (auto simp add: my_malloc_def)
next
  case n: False
  let ?need = "max (alignSize n) MIN_BLOCK_SIZE"
  show ?thesis
  proof (cases "find (fits (blocks s) ?need) bs")
    case None
    then have "\<forall>b \<in> set bs. \<not> fits (blocks s) ?need b" by (simp add: find_None_iff)
    from my_malloc_no_fit [OF well_formed_chain [OF wf] n this] wf c
    show ?thesis by auto
  next
    case (Some b)
    from find_SomeD [OF Some] obtain xs ys where
      bs: "bs = xs @ b # ys" and fit: "fits (blocks s) ?need b"
      and nofit: "\<forall>x \<in> set xs. \<not> fits (blocks s) ?need x" by blast
    let ?t = "take_block s b ?need"
    let ?bs' = "chain_after_take (blocks s) ?need xs b ys"
    note m = my_malloc_wf [OF wf [unfolded bs] n refl fit nofit]
    have "well_formed ?t ?bs'"
      using wf [unfolded bs] fit need_ge_16 by (rule take_block_wf)
    then have 1: "well_formed (?t\<lparr>stats := malloc_stats ?t b ?bs'\<rparr>) ?bs'"
      by (simp add: well_formed_stats)
    have "coherent ?t ?bs'"
      using wf [unfolded bs] fit need_ge_16 c [unfolded bs] by (rule take_block_coherent)
    then have 2: "coherent (?t\<lparr>stats := malloc_stats ?t b ?bs'\<rparr>) ?bs'" by simp
    have 3: "fromData (getData b) \<in> set ?bs'"
      by (simp add: chain_after_take_def getData_def fromData_def)
    from m 1 2 3 chain_after_take_superset [of xs b ys "blocks s" ?need]
    show ?thesis unfolding bs by blast
  qed
qed

lemma my_calloc_coherent:
  assumes wf: "well_formed s bs" and c: "coherent s bs"
    and r: "my_calloc s cnt sz = Some (Inr (p, s', d))"
  shows "\<exists>bs'. well_formed s' bs' \<and> coherent s' bs'"
proof (cases "cnt \<noteq> 0 \<and> (cnt * sz) div cnt \<noteq> sz")
  case True
  with r have "s' = s" by (simp add: my_calloc_def Let_def)
  with wf c show ?thesis by auto
next
  case False
  from my_malloc_coherent [OF wf c, of "cnt * sz"] obtain q s1 d1 bs1 where
    m: "my_malloc s (cnt * sz) = Some (q, s1, d1)" and 1: "well_formed s1 bs1"
    and 2: "coherent s1 bs1" and 3: "q \<noteq> 0 \<longrightarrow> fromData q \<in> set bs1" by blast
  from False have f: "(cnt \<noteq> 0 \<and> cnt * sz div cnt \<noteq> sz) = False" by blast
  show ?thesis
  proof (cases "q = 0")
    case True
    with r m have "s' = s1" unfolding my_calloc_def Let_def f by simp
    with 1 2 show ?thesis by auto
  next
    case q: False
    with r m have len: "cnt * sz \<le> size_blk (blocks s1 (fromData q))"
      and s': "s' = s1\<lparr>bytes := memset (bytes s1) q 0 (cnt * sz)\<rparr>"
      unfolding my_calloc_def Let_def f by (auto split: if_splits)
    have "coherent s' bs1"
      unfolding s' using 1 2 3 [rule_format, OF q] len
      by (rule payload_write_coherent) (simp add: memset_def getData_fromData)
    moreover have "well_formed s' bs1" unfolding s' using 1 by (simp add: well_formed_bytes)
    ultimately show ?thesis by auto
  qed
qed


lemma expand_state_merge:
  "expand_state s b = (merge_blocks s b (next_blk (blocks s b)))
     \<lparr>stats := (stats s)\<lparr>free_block_count := free_block_count (stats s) - 1,
                         block_count := block_count (stats s) - 1\<rparr>\<rparr>"
  by (simp add: expand_state_def merge_blocks_def Let_def add.assoc)

lemma expand_state_coherent:
  assumes wf: "well_formed s bs" and c: "coherent s bs" and b: "b \<in> set bs"
    and nx: "next_blk (blocks s b) \<noteq> 0"
  shows "\<exists>bs'. well_formed (expand_state s b) bs' \<and> coherent (expand_state s b) bs'"
proof -
  from b obtain xs ys where bs: "bs = xs @ b # ys" by (auto dest: split_list)
  from well_formed_next(1) [OF wf [unfolded bs]] nx obtain zs where
    ys: "ys = next_blk (blocks s b) # zs" by (cases ys) auto
  let ?c = "next_blk (blocks s b)"
  have wf': "well_formed s (xs @ b # ?c # zs)" using wf unfolding bs using ys by simp
  have c': "coherent s (xs @ b # ?c # zs)" using c unfolding bs using ys by simp
  from merge_blocks_wf [OF wf'] merge_blocks_coherent [OF wf' c']
  show ?thesis
    unfolding expand_state_merge by (intro exI [of _ "xs @ b # zs"]) (simp add: well_formed_stats)
qed

lemma my_realloc_coherent:
  assumes wf: "well_formed s bs" and c: "coherent s bs"
    and q: "q = 0 \<or> fromData q \<in> set bs"
  shows "\<exists>p s' d bs'. my_realloc s q n = Some (p, s', d) \<and> well_formed s' bs'
           \<and> coherent s' bs'"
proof -
  consider (null) "q = 0" | (zero) "q \<noteq> 0" "n = 0"
    | (invalid) "q \<noteq> 0" "n \<noteq> 0" "\<not> isValidPointer s q"
    | (fits) "q \<noteq> 0" "n \<noteq> 0" "isValidPointer s q"
        "alignSize n \<le> size_blk (blocks s (fromData q))"
    | (expand) "expands_in_place s q n"
    | (reloc) "relocates s q n"
    by (auto simp add: relocates_def)
  then show ?thesis
  proof cases
    case null
    with my_malloc_coherent [OF wf c, of n] show ?thesis
      by (auto simp add: my_realloc_def)
  next
    case zero
    from my_free_coherent [OF wf c q] obtain bs' where
      "well_formed (fst (my_free s q)) bs' \<and> coherent (fst (my_free s q)) bs'" by blast
    moreover from zero have "my_realloc s q n = Some (0, fst (my_free s q), snd (my_free s q))"
      by (simp add: my_realloc_def case_prod_beta)
    ultimately show ?thesis by blast
  next
    case invalid
    then have "my_realloc s q n = Some (0, s, [ReallocInvalidPointer])"
      by (simp add: my_realloc_def)
    with wf c show ?thesis by blast
  next
    case fits
    then have "my_realloc s q n = Some (q, s, [])"
      by (simp add: my_realloc_def Let_def)
    with wf c show ?thesis by blast
  next
    case expand
    then have q0: "q \<noteq> 0" and nx: "next_blk (blocks s (fromData q)) \<noteq> 0"
      by (simp_all add: expands_in_place_def)
    with q have b: "fromData q \<in> set bs" by simp
    from expand_state_coherent [OF wf c b nx] my_realloc_expand [OF expand]
    show ?thesis by blast
  next
    case reloc
    then have q0: "q \<noteq> 0" by (simp add: relocates_def)
    from my_malloc_coherent [OF wf c, of "alignSize n"] obtain p s1 d1 bs1 where
      m: "my_malloc s (alignSize n) = Some (p, s1, d1)" and 1: "well_formed s1 bs1"
      and 2: "coherent s1 bs1" and 3: "p \<noteq> 0 \<longrightarrow> fromData p \<in> set bs1"
      and sub: "set bs \<subseteq> set bs1" by blast
    show ?thesis
    proof (cases "p = 0")
      case True
      with m have "my_realloc s q n = Some (0, s1, d1)"
        by (simp add: my_realloc_relocate [OF reloc])
      with 1 2 show ?thesis by blast
    next
      case False
      let ?old = "size_blk (blocks s (fromData q))"
      let ?s2 = "s1\<lparr>bytes := memcpy (bytes s1) p q ?old\<rparr>"
      from my_realloc_copy_inside [OF wf reloc m False]
      have len: "?old \<le> size_blk (blocks s1 (fromData p))" by simp
      have c2: "coherent ?s2 bs1"
        using 1 2 3 [rule_format, OF False] len
        by (rule payload_write_coherent) (simp add: memcpy_def getData_fromData)
      have wf2: "well_formed ?s2 bs1" using 1 by (simp add: well_formed_bytes)
      from q q0 sub have "q = 0 \<or> fromData q \<in> set bs1" by auto
      from my_free_coherent [OF wf2 c2 this] obtain bs' where
        "well_formed (fst (my_free ?s2 q)) bs' \<and> coherent (fst (my_free ?s2 q)) bs'" by blast
      moreover from m False
      have "my_realloc s q n = Some (p, fst (my_free ?s2 q), d1 @ snd (my_free ?s2 q))"
        by (simp add: my_realloc_relocate [OF reloc])
      ultimately show ?thesis by blast
    qed
  qed
qed

end
